theory Spec2Isabelle
  imports
    Main
    "HOL-Library.Char_ord"
    "HOL-Library.List_Lexorder"
    "HOL-Library.Product_Lexorder"
    "HOL-Library.Multiset"
    "HOL-Library.Word"
begin

unbundle bit_operations_syntax

section \<open>The schema descriptors read by the layout engine\<close>

text \<open>
  The layout engine of \<^verbatim>\<open>upbc/message_layout.{h,cc}\<close> reads protobuf descriptors
  through their accessor functions only. A descriptor is modelled as a record holding what
  those accessors return. Integers are \<^typ>\<open>int\<close>: sizes and offsets are \<^verbatim>\<open>int64_t\<close> in
  the source, a message has fewer than \<open>2^31\<close> fields and oneofs (\<^verbatim>\<open>field_count()\<close> is an
  \<^verbatim>\<open>int\<close>), the presence bits take one byte per eight fields and every other placement
  adds fewer than 32 bytes, so no value comes near \<open>2^63\<close>. The bit operations of
  \<^typ>\<open>int\<close> are those of two's complement, so \<^verbatim>\<open>(val + align - 1) & ~(align - 1)\<close> on
  \<^verbatim>\<open>size_t\<close> reads the same on these values, also at \<^verbatim>\<open>align = 0\<close>, where both give 0:
  \<open>Align_size_t\<close> below is the function on 64-bit words, and the last section shows that
  the two agree and that the sizes stay in the range where they do.
\<close>

datatype CppType =
    CPPTYPE_INT32 | CPPTYPE_INT64 | CPPTYPE_UINT32 | CPPTYPE_UINT64 | CPPTYPE_DOUBLE
  | CPPTYPE_FLOAT | CPPTYPE_BOOL | CPPTYPE_ENUM | CPPTYPE_STRING | CPPTYPE_MESSAGE

datatype Label = LABEL_OPTIONAL | LABEL_REQUIRED | LABEL_REPEATED

record OneofDescriptor =
  oneof_full_name :: string
  is_synthetic :: bool

record FieldDescriptor =
  number :: int
  full_name :: string
  cpp_type :: CppType
  label :: Label
  has_presence :: bool
  containing_oneof :: "OneofDescriptor option"

record Descriptor =
  msg_full_name :: string
  map_entry :: bool
  field :: "FieldDescriptor list"
  oneof_decl :: "OneofDescriptor list"

definition is_required :: "FieldDescriptor \<Rightarrow> bool" where
  "is_required f \<longleftrightarrow> label f = LABEL_REQUIRED"

definition is_repeated :: "FieldDescriptor \<Rightarrow> bool" where
  "is_repeated f \<longleftrightarrow> label f = LABEL_REPEATED"

text \<open>\<^verbatim>\<open>real_containing_oneof()\<close>: the containing oneof unless it is synthetic.\<close>

definition real_containing_oneof :: "FieldDescriptor \<Rightarrow> OneofDescriptor option" where
  "real_containing_oneof f =
     (case containing_oneof f of
        None \<Rightarrow> None
      | Some oneof \<Rightarrow> if is_synthetic oneof then None else Some oneof)"

text \<open>\<^verbatim>\<open>oneof->field(i)\<close> for \<open>i = 0 ..< field_count()\<close>: the fields of the message that
  belong to the oneof, in declaration order.\<close>

definition oneof_field :: "Descriptor \<Rightarrow> OneofDescriptor \<Rightarrow> FieldDescriptor list" where
  "oneof_field d oneof = filter (\<lambda>f. containing_oneof f = Some oneof) (field d)"

text \<open>\<^verbatim>\<open>FindFieldByNumber\<close>: the field with that number, or a null pointer.\<close>

definition FindFieldByNumber :: "Descriptor \<Rightarrow> int \<Rightarrow> FieldDescriptor option" where
  "FindFieldByNumber d n = find (\<lambda>f. number f = n) (field d)"

section \<open>Size arithmetic\<close>

record Size =
  size32 :: int
  size64 :: int

record SizeAndAlign =
  sa_size :: Size
  sa_align :: Size

definition mkSize :: "int \<Rightarrow> int \<Rightarrow> Size" where
  "mkSize a b = \<lparr>size32 = a, size64 = b\<rparr>"

definition mkSA :: "int \<Rightarrow> int \<Rightarrow> int \<Rightarrow> int \<Rightarrow> SizeAndAlign" where
  "mkSA s32 s64 a32 a64 = \<lparr>sa_size = mkSize s32 s64, sa_align = mkSize a32 a64\<rparr>"

definition Add :: "Size \<Rightarrow> Size \<Rightarrow> Size" where
  "Add a other = mkSize (size32 a + size32 other) (size64 a + size64 other)"

definition MaxFrom :: "Size \<Rightarrow> Size \<Rightarrow> Size" where
  "MaxFrom a other = mkSize (max (size32 a) (size32 other)) (max (size64 a) (size64 other))"

definition IsPowerOfTwo :: "int \<Rightarrow> bool" where
  "IsPowerOfTwo val \<longleftrightarrow> val AND (val - 1) = 0"

definition Align :: "int \<Rightarrow> int \<Rightarrow> int" where
  "Align val align = (val + align - 1) AND NOT (align - 1)"

text \<open>The same two functions on \<^verbatim>\<open>size_t\<close>, taken as 64 bits wide.\<close>

definition IsPowerOfTwo_size_t :: "64 word \<Rightarrow> bool" where
  "IsPowerOfTwo_size_t val \<longleftrightarrow> val AND (val - 1) = 0"

definition Align_size_t :: "64 word \<Rightarrow> 64 word \<Rightarrow> 64 word" where
  "Align_size_t val align = (val + align - 1) AND NOT (align - 1)"

definition AlignUp :: "Size \<Rightarrow> Size \<Rightarrow> Size" where
  "AlignUp a align = mkSize (Align (size32 a) (size32 align)) (Align (size64 a) (size64 align))"

text \<open>The two \<^verbatim>\<open>ABSL_ASSERT(IsPowerOfTwo(align))\<close> that one \<^verbatim>\<open>AlignUp\<close> evaluates.\<close>

definition AlignUp_asserts :: "Size \<Rightarrow> bool" where
  "AlignUp_asserts align \<longleftrightarrow> IsPowerOfTwo (size32 align) \<and> IsPowerOfTwo (size64 align)"

definition SA_MaxFrom :: "SizeAndAlign \<Rightarrow> SizeAndAlign \<Rightarrow> SizeAndAlign" where
  "SA_MaxFrom a other =
     \<lparr>sa_size = MaxFrom (sa_size a) (sa_size other),
      sa_align = MaxFrom (sa_align a) (sa_align other)\<rparr>"

text \<open>\<^verbatim>\<open>DivRoundUp\<close>; its two assertions are \<open>DivRoundUp_asserts\<close>. With both operands
  non-negative the truncating division of C++ is \<open>div\<close>.\<close>

definition DivRoundUp :: "int \<Rightarrow> int \<Rightarrow> int" where
  "DivRoundUp a b = (a + b - 1) div b"

definition DivRoundUp_asserts :: "int \<Rightarrow> int \<Rightarrow> bool" where
  "DivRoundUp_asserts a b \<longleftrightarrow> a \<ge> 0 \<and> b > 0"

section \<open>Field classification\<close>

definition HasHasbit :: "Descriptor \<Rightarrow> FieldDescriptor \<Rightarrow> bool" where
  "HasHasbit containing_type f \<longleftrightarrow>
     has_presence f \<and> real_containing_oneof f = None \<and> \<not> map_entry containing_type"

fun SizeOfUnwrapped :: "FieldDescriptor \<Rightarrow> SizeAndAlign" where
  "SizeOfUnwrapped f =
     (case cpp_type f of
        CPPTYPE_MESSAGE \<Rightarrow> mkSA 4 8 4 8
      | CPPTYPE_STRING \<Rightarrow> mkSA 8 16 4 8
      | CPPTYPE_BOOL \<Rightarrow> mkSA 1 1 1 1
      | CPPTYPE_FLOAT \<Rightarrow> mkSA 4 4 4 4
      | CPPTYPE_INT32 \<Rightarrow> mkSA 4 4 4 4
      | CPPTYPE_UINT32 \<Rightarrow> mkSA 4 4 4 4
      | CPPTYPE_ENUM \<Rightarrow> mkSA 4 4 4 4
      | CPPTYPE_INT64 \<Rightarrow> mkSA 8 8 8 8
      | CPPTYPE_UINT64 \<Rightarrow> mkSA 8 8 8 8
      | CPPTYPE_DOUBLE \<Rightarrow> mkSA 8 8 8 8)"

definition SizeOf :: "FieldDescriptor \<Rightarrow> SizeAndAlign" where
  "SizeOf f = (if is_repeated f then mkSA 4 8 4 8 else SizeOfUnwrapped f)"

datatype error =
    TooManyRequired string  \<comment> \<open>\<^verbatim>\<open>exit(1)\<close>, with the name printed after the message\<close>
  | Abort string            \<comment> \<open>\<^verbatim>\<open>abort()\<close>, with the diagnostic printed before it\<close>

text \<open>The bucket \<^verbatim>\<open>rank\<close> of \<^verbatim>\<open>FieldLayoutRank\<close>, before the field number is or-ed in.\<close>

definition rank_bucket :: "FieldDescriptor \<Rightarrow> int" where
  "rank_bucket f =
     (if label f = LABEL_REPEATED then 6
      else (case cpp_type f of
              CPPTYPE_MESSAGE \<Rightarrow> 5
            | CPPTYPE_STRING \<Rightarrow> 4
            | CPPTYPE_BOOL \<Rightarrow> 3
            | CPPTYPE_FLOAT \<Rightarrow> 2
            | CPPTYPE_INT32 \<Rightarrow> 2
            | CPPTYPE_UINT32 \<Rightarrow> 2
            | _ \<Rightarrow> 1))"

definition FieldLayoutRank :: "FieldDescriptor \<Rightarrow> error + int" where
  "FieldLayoutRank f =
     (if containing_oneof f \<noteq> None then Inl (Abort ''shouldn't have oneofs here.'')
      else Inr (push_bit 29 (rank_bucket f) OR number f))"

text \<open>\<^verbatim>\<open>FieldHotnessOrder\<close>: all fields, sorted by the pair (not required, number).
  \<^verbatim>\<open>std::sort\<close> is a sort whose order of equal keys is unspecified; \<open>sort_key\<close> is that
  sort wherever the keys are distinct.\<close>

definition FieldHotnessOrder :: "Descriptor \<Rightarrow> FieldDescriptor list" where
  "FieldHotnessOrder message = sort_key (\<lambda>f. (\<not> is_required f, number f)) (field message)"

section \<open>The layout object and the placement engine\<close>

text \<open>
  The members of \<^verbatim>\<open>MessageLayout\<close>, \<open>m_size\<close> for \<^verbatim>\<open>size_\<close> and so on. The hash maps
  keyed by descriptor pointers are maps keyed by the descriptors, which distinct field
  numbers and distinct oneof names keep apart. \<open>asserts_ok\<close> is not a member: it records whether every
  \<^verbatim>\<open>ABSL_ASSERT\<close> evaluated so far held. \<^verbatim>\<open>ABSL_ASSERT\<close> is compiled out under
  \<^verbatim>\<open>NDEBUG\<close>, so the functions below compute what such a build computes, and a build with
  assertions aborts exactly when the flag is false.
\<close>

record MessageLayout =
  m_field_offsets :: "FieldDescriptor \<rightharpoonup> Size"
  m_hasbit_indexes :: "FieldDescriptor \<rightharpoonup> int"
  m_oneof_case_offsets :: "OneofDescriptor \<rightharpoonup> Size"
  m_maxalign :: Size
  m_size :: Size
  m_hasbit_count :: int
  m_hasbit_bytes :: int
  m_required_count :: int
  asserts_ok :: bool

definition Place :: "SizeAndAlign \<Rightarrow> MessageLayout \<Rightarrow> Size \<times> MessageLayout" where
  "Place size_and_align L =
     (let offset = AlignUp (m_size L) (sa_align size_and_align)
      in (offset,
          L\<lparr>m_size := Add offset (sa_size size_and_align),
            m_maxalign := MaxFrom (m_maxalign L) (sa_size size_and_align),
            asserts_ok := asserts_ok L \<and> AlignUp_asserts (sa_align size_and_align)\<rparr>))"

text \<open>The sort of \<^verbatim>\<open>field_order\<close> by \<^verbatim>\<open>FieldLayoutRank\<close>, which aborts on a oneof member.\<close>

definition rank_key :: "FieldDescriptor \<Rightarrow> int" where
  "rank_key f = (case FieldLayoutRank f of Inl e \<Rightarrow> 0 | Inr r \<Rightarrow> r)"

definition sort_by_rank :: "FieldDescriptor list \<Rightarrow> error + FieldDescriptor list" where
  "sort_by_rank fs =
     (case find (\<lambda>f. isl (FieldLayoutRank f)) fs of
        Some f \<Rightarrow> Inl (projl (FieldLayoutRank f))
      | None \<Rightarrow> Inr (sort_key rank_key fs))"

text \<open>The loop \<^verbatim>\<open>for (auto field : FieldHotnessOrder(descriptor))\<close> of
  \<^verbatim>\<open>PlaceNonOneofFields\<close>.\<close>

fun place_hasbits :: "Descriptor \<Rightarrow> FieldDescriptor list \<Rightarrow> MessageLayout \<Rightarrow> error + MessageLayout" where
  "place_hasbits d [] L = Inr L"
| "place_hasbits d (f # fs) L =
     (if HasHasbit d f then
        (let index = m_hasbit_count L + 1;
             L1 = L\<lparr>m_hasbit_count := index, m_hasbit_indexes := (m_hasbit_indexes L)(f \<mapsto> index)\<rparr>
         in if is_required f then
              (if index > 63 then Inl (TooManyRequired (full_name f))
               else place_hasbits d fs (L1\<lparr>m_required_count := m_required_count L1 + 1\<rparr>))
            else place_hasbits d fs L1)
      else place_hasbits d fs L)"

text \<open>The loop \<^verbatim>\<open>for (auto field : field_order)\<close> of \<^verbatim>\<open>PlaceNonOneofFields\<close>.\<close>

fun place_fields :: "FieldDescriptor list \<Rightarrow> MessageLayout \<Rightarrow> MessageLayout" where
  "place_fields [] L = L"
| "place_fields (f # fs) L =
     (case Place (SizeOf f) L of
        (offset, L1) \<Rightarrow> place_fields fs (L1\<lparr>m_field_offsets := (m_field_offsets L1)(f \<mapsto> offset)\<rparr>))"

definition PlaceNonOneofFields :: "Descriptor \<Rightarrow> MessageLayout \<Rightarrow> error + MessageLayout" where
  "PlaceNonOneofFields d L =
     (case sort_by_rank (filter (\<lambda>f. containing_oneof f = None) (field d)) of
        Inl e \<Rightarrow> Inl e
      | Inr field_order \<Rightarrow>
          (case place_hasbits d (FieldHotnessOrder d) (L\<lparr>m_hasbit_count := 0, m_required_count := 0\<rparr>) of
             Inl e \<Rightarrow> Inl e
           | Inr L1 \<Rightarrow>
               (let bytes = DivRoundUp (m_hasbit_count L1) 8;
                    L2 = L1\<lparr>m_hasbit_bytes := bytes,
                            asserts_ok := asserts_ok L1 \<and> DivRoundUp_asserts (m_hasbit_count L1) 8\<rparr>
                in Inr (place_fields field_order
                          (snd (Place \<lparr>sa_size = mkSize bytes bytes, sa_align = mkSize 1 1\<rparr> L2))))))"

text \<open>\<^verbatim>\<open>oneof_maxsize\<close>: the loop \<^verbatim>\<open>oneof_maxsize.MaxFrom(SizeOf(oneof->field(i)))\<close>.\<close>

fun oneof_maxsize :: "FieldDescriptor list \<Rightarrow> SizeAndAlign \<Rightarrow> SizeAndAlign" where
  "oneof_maxsize [] acc = acc"
| "oneof_maxsize (f # fs) acc = oneof_maxsize fs (SA_MaxFrom acc (SizeOf f))"

text \<open>The loop \<^verbatim>\<open>field_offsets_[oneof->field(i)] = data\<close>.\<close>

fun set_data_offsets :: "FieldDescriptor list \<Rightarrow> Size \<Rightarrow> MessageLayout \<Rightarrow> MessageLayout" where
  "set_data_offsets [] data L = L"
| "set_data_offsets (f # fs) data L =
     set_data_offsets fs data (L\<lparr>m_field_offsets := (m_field_offsets L)(f \<mapsto> data)\<rparr>)"

text \<open>The loop \<^verbatim>\<open>for (auto oneof : oneof_order)\<close> of \<^verbatim>\<open>PlaceOneofFields\<close>.\<close>

fun place_oneofs :: "Descriptor \<Rightarrow> OneofDescriptor list \<Rightarrow> MessageLayout \<Rightarrow> MessageLayout" where
  "place_oneofs d [] L = L"
| "place_oneofs d (oneof # rest) L =
     (case Place (oneof_maxsize (oneof_field d oneof) (mkSA 0 0 0 0)) L of
        (data, L1) \<Rightarrow>
          (case Place (mkSA 4 4 4 4) L1 of
             (discriminator, L2) \<Rightarrow>
               place_oneofs d rest
                 (set_data_offsets (oneof_field d oneof) data
                    (L2\<lparr>m_oneof_case_offsets := (m_oneof_case_offsets L2)(oneof \<mapsto> discriminator)\<rparr>))))"

definition PlaceOneofFields :: "Descriptor \<Rightarrow> MessageLayout \<Rightarrow> MessageLayout" where
  "PlaceOneofFields d L = place_oneofs d (sort_key oneof_full_name (oneof_decl d)) L"

text \<open>The two statements of the map-entry branch. A null pointer returned by
  \<^verbatim>\<open>FindFieldByNumber\<close> is a key that no field has: the placement still happens, and no
  field's entry is written.\<close>

definition place_map_entry_field :: "Descriptor \<Rightarrow> int \<Rightarrow> MessageLayout \<Rightarrow> MessageLayout" where
  "place_map_entry_field d n L =
     (case Place (mkSA 8 16 4 8) L of
        (offset, L1) \<Rightarrow>
          (case FindFieldByNumber d n of
             None \<Rightarrow> L1
           | Some f \<Rightarrow> L1\<lparr>m_field_offsets := (m_field_offsets L1)(f \<mapsto> offset)\<rparr>))"

text \<open>\<^verbatim>\<open>ComputeLayout\<close>, a member function: it takes the object as it is when the
  constructor calls it and returns it as it leaves it, or the error that ended the run.\<close>

definition ComputeLayout :: "Descriptor \<Rightarrow> MessageLayout \<Rightarrow> error + MessageLayout" where
  "ComputeLayout d L =
     (let L0 = L\<lparr>m_size := mkSize 0 0, m_maxalign := mkSize 8 8\<rparr>;
          placed =
            (if map_entry d then Inr (place_map_entry_field d 2 (place_map_entry_field d 1 L0))
             else (case PlaceNonOneofFields d L0 of
                     Inl e \<Rightarrow> Inl e
                   | Inr L1 \<Rightarrow> Inr (PlaceOneofFields d L1)))
      in (case placed of
            Inl e \<Rightarrow> Inl e
          | Inr L2 \<Rightarrow>
              Inr (L2\<lparr>m_size := AlignUp (m_size L2) (m_maxalign L2),
                      asserts_ok := asserts_ok L2 \<and> AlignUp_asserts (m_maxalign L2)\<rparr>)))"

text \<open>
  The constructor \<^verbatim>\<open>MessageLayout(descriptor)\<close>: the three hash maps are default-constructed
  (empty); the other members have no initialiser, so what they hold before
  \<^verbatim>\<open>ComputeLayout\<close> runs is indeterminate and is a parameter here.
\<close>

record indeterminate =
  ind_maxalign :: Size
  ind_size :: Size
  ind_hasbit_count :: int
  ind_hasbit_bytes :: int
  ind_required_count :: int

definition fresh :: "indeterminate \<Rightarrow> MessageLayout" where
  "fresh u =
     \<lparr>m_field_offsets = Map.empty, m_hasbit_indexes = Map.empty, m_oneof_case_offsets = Map.empty,
      m_maxalign = ind_maxalign u, m_size = ind_size u, m_hasbit_count = ind_hasbit_count u,
      m_hasbit_bytes = ind_hasbit_bytes u, m_required_count = ind_required_count u,
      asserts_ok = True\<rparr>"

definition new_MessageLayout :: "indeterminate \<Rightarrow> Descriptor \<Rightarrow> error + MessageLayout" where
  "new_MessageLayout u d = ComputeLayout d (fresh u)"

text \<open>The queries. \<^verbatim>\<open>GetMapValue\<close> aborts on a key that has no entry.\<close>

definition GetMapValue :: "('k \<rightharpoonup> 'v) \<Rightarrow> 'k \<Rightarrow> error + 'v" where
  "GetMapValue m key = (case m key of None \<Rightarrow> Inl (Abort ''No value for field.'') | Some v \<Rightarrow> Inr v)"

definition GetFieldOffset :: "MessageLayout \<Rightarrow> FieldDescriptor \<Rightarrow> error + Size" where
  "GetFieldOffset L f = GetMapValue (m_field_offsets L) f"


definition GetHasbitIndex :: "MessageLayout \<Rightarrow> FieldDescriptor \<Rightarrow> error + int" where
  "GetHasbitIndex L f = GetMapValue (m_hasbit_indexes L) f"

definition message_size :: "MessageLayout \<Rightarrow> Size" where
  "message_size L = m_size L"

definition hasbit_count :: "MessageLayout \<Rightarrow> int" where
  "hasbit_count L = m_hasbit_count L"

definition hasbit_bytes :: "MessageLayout \<Rightarrow> int" where
  "hasbit_bytes L = m_hasbit_bytes L"

definition required_count :: "MessageLayout \<Rightarrow> int" where
  "required_count L = m_required_count L"

section \<open>Notions used to state and prove the properties\<close>

definition Size_le :: "Size \<Rightarrow> Size \<Rightarrow> bool" where
  "Size_le a b \<longleftrightarrow> size32 a \<le> size32 b \<and> size64 a \<le> size64 b"

definition good_align :: "Size \<Rightarrow> bool" where
  "good_align a \<longleftrightarrow> (size32 a = 1 \<or> size32 a = 4 \<or> size32 a = 8) \<and> (size64 a = 1 \<or> size64 a = 4 \<or> size64 a = 8)"

definition oneof_shape :: "Descriptor \<Rightarrow> OneofDescriptor \<Rightarrow> SizeAndAlign" where
  "oneof_shape d oneof = oneof_maxsize (oneof_field d oneof) (mkSA 0 0 0 0)"

definition oneof_data :: "Descriptor \<Rightarrow> OneofDescriptor \<Rightarrow> MessageLayout \<Rightarrow> Size" where
  "oneof_data d oneof L = AlignUp (m_size L) (sa_align (oneof_shape d oneof))"

definition oneof_discriminator :: "Descriptor \<Rightarrow> OneofDescriptor \<Rightarrow> Size \<Rightarrow> Size" where
  "oneof_discriminator d oneof data = AlignUp (Add data (sa_size (oneof_shape d oneof))) (mkSize 4 4)"

definition place_oneof :: "Descriptor \<Rightarrow> OneofDescriptor \<Rightarrow> MessageLayout \<Rightarrow> MessageLayout" where
  "place_oneof d oneof L =
     set_data_offsets (oneof_field d oneof) (oneof_data d oneof L)
       ((snd (Place (mkSA 4 4 4 4) (snd (Place (oneof_shape d oneof) L))))
          \<lparr>m_oneof_case_offsets :=
             (m_oneof_case_offsets L)(oneof \<mapsto> oneof_discriminator d oneof (oneof_data d oneof L))\<rparr>)"

definition oneof_placed :: "Descriptor \<Rightarrow> OneofDescriptor \<Rightarrow> MessageLayout \<Rightarrow> MessageLayout \<Rightarrow> bool" where
  "oneof_placed d oneof L' L \<longleftrightarrow>
     (\<forall>f\<in>set (oneof_field d oneof). m_field_offsets L f = Some (oneof_data d oneof L')) \<and>
     m_oneof_case_offsets L oneof = Some (oneof_discriminator d oneof (oneof_data d oneof L'))"

definition tracked :: "Descriptor \<Rightarrow> FieldDescriptor list" where
  "tracked d = filter (HasHasbit d) (FieldHotnessOrder d)"

definition non_oneof_fields :: "Descriptor \<Rightarrow> FieldDescriptor list" where
  "non_oneof_fields d = filter (\<lambda>f. containing_oneof f = None) (field d)"

definition field_order :: "Descriptor \<Rightarrow> FieldDescriptor list" where
  "field_order d = sort_key rank_key (non_oneof_fields d)"

definition oneof_order :: "Descriptor \<Rightarrow> OneofDescriptor list" where
  "oneof_order d = sort_key oneof_full_name (oneof_decl d)"

definition start :: "MessageLayout \<Rightarrow> MessageLayout" where
  "start L = L\<lparr>m_size := mkSize 0 0, m_maxalign := mkSize 8 8, m_hasbit_count := 0, m_required_count := 0\<rparr>"

definition hasbits_placed :: "MessageLayout \<Rightarrow> MessageLayout" where
  "hasbits_placed L1 =
     snd (Place \<lparr>sa_size = mkSize (DivRoundUp (m_hasbit_count L1) 8) (DivRoundUp (m_hasbit_count L1) 8),
                 sa_align = mkSize 1 1\<rparr>
            (L1\<lparr>m_hasbit_bytes := DivRoundUp (m_hasbit_count L1) 8,
                asserts_ok := asserts_ok L1 \<and> DivRoundUp_asserts (m_hasbit_count L1) 8\<rparr>))"

definition finish :: "MessageLayout \<Rightarrow> MessageLayout" where
  "finish L2 = L2\<lparr>m_size := AlignUp (m_size L2) (m_maxalign L2),
                  asserts_ok := asserts_ok L2 \<and> AlignUp_asserts (m_maxalign L2)\<rparr>"

text \<open>A validated schema: field numbers are distinct and in the range that protobuf
  allows, oneof names are distinct, the oneof of a field is one of the message's oneofs,
  and every oneof has a member.\<close>

definition valid_descriptor :: "Descriptor \<Rightarrow> bool" where
  "valid_descriptor d \<longleftrightarrow>
     distinct (map number (field d)) \<and>
     list_all (\<lambda>f. 1 \<le> number f \<and> number f < 2 ^ 29) (field d) \<and>
     distinct (map oneof_full_name (oneof_decl d)) \<and>
     list_all (\<lambda>f. case containing_oneof f of None \<Rightarrow> True
                    | Some oneof \<Rightarrow> oneof \<in> set (oneof_decl d)) (field d) \<and>
     list_all (\<lambda>oneof. oneof_field d oneof \<noteq> []) (oneof_decl d)"

definition fields_placed :: "Descriptor \<Rightarrow> MessageLayout \<Rightarrow> MessageLayout" where
  "fields_placed d L1 = place_fields (field_order d) (hasbits_placed L1)"

text \<open>Byte ranges \<open>[start, end)\<close> under both widths, as pairs of \<open>Size\<close>: of the presence
  bits, of a field, and of a oneof's data and discriminator together.\<close>

definition hasbit_region :: "MessageLayout \<Rightarrow> Size \<times> Size" where
  "hasbit_region L = (mkSize 0 0, mkSize (m_hasbit_bytes L) (m_hasbit_bytes L))"

definition field_region :: "MessageLayout \<Rightarrow> FieldDescriptor \<Rightarrow> (Size \<times> Size) option" where
  "field_region L f =
     (case m_field_offsets L f of
        None \<Rightarrow> None
      | Some offset \<Rightarrow> Some (offset, Add offset (sa_size (SizeOf f))))"

definition oneof_region :: "Descriptor \<Rightarrow> MessageLayout \<Rightarrow> OneofDescriptor \<Rightarrow> (Size \<times> Size) option" where
  "oneof_region d L oneof =
     (case oneof_field d oneof of
        [] \<Rightarrow> None
      | f # _ \<Rightarrow>
          (case (m_field_offsets L f, m_oneof_case_offsets L oneof) of
             (Some data, Some discriminator) \<Rightarrow> Some (data, Add discriminator (mkSize 4 4))
           | _ \<Rightarrow> None))"




text \<open>What an ordinary message's run does after the presence-bit loop has left \<open>L1\<close>.\<close>

definition after_hasbits :: "Descriptor \<Rightarrow> MessageLayout \<Rightarrow> MessageLayout" where
  "after_hasbits d L1 = finish (place_oneofs d (oneof_order d) (fields_placed d L1))"

definition before_finish :: "Descriptor \<Rightarrow> MessageLayout \<Rightarrow> MessageLayout" where
  "before_finish d M = place_oneofs d (oneof_order d) (fields_placed d M)"

text \<open>Sizes that keep a running maximum of 8 or 16 at 8 or 16.\<close>

definition at_most_8_or_16 :: "Size \<Rightarrow> bool" where
  "at_most_8_or_16 s \<longleftrightarrow> (size32 s \<le> 8 \<or> size32 s = 16) \<and> (size64 s \<le> 8 \<or> size64 s = 16)"

definition is_8_or_16 :: "Size \<Rightarrow> bool" where
  "is_8_or_16 a \<longleftrightarrow> (size32 a = 8 \<or> size32 a = 16) \<and> (size64 a = 8 \<or> size64 a = 16)"

text \<open>The descriptors are built by protobuf's descriptor pool, which forms the full name of a
  message's field from the full name of the message, a dot and the field's own name:
  \<^verbatim>\<open>field->full_name()\<close> of the field \<open>f64\<close> of the message \<open>pkg.M\<close> is \<open>pkg.M.f64\<close>.
  \<open>qualified_by scope name\<close> says that \<open>name\<close> is \<open>scope\<close>, a dot and a name that is not
  empty.\<close>

definition qualified_by :: "string \<Rightarrow> string \<Rightarrow> bool" where
  "qualified_by scope name \<longleftrightarrow>
     take (length scope + 1) name = scope @ ''.'' \<and> length scope + 1 < length name"

definition field_names_qualified :: "Descriptor \<Rightarrow> bool" where
  "field_names_qualified d \<longleftrightarrow>
     list_all (\<lambda>f. qualified_by (msg_full_name d) (full_name f)) (field d)"

section \<open>Concrete schemas\<close>

text \<open>Messages named \<open>M\<close> whose \<open>k\<close> fields \<open>M.f01\<close>, \<open>M.f02\<close>, ... are numbered from 1
  and have one type and one label; none is in a oneof.\<close>

definition digit :: "int \<Rightarrow> char" where
  "digit n = ''0123456789'' ! nat n"

definition field_name :: "int \<Rightarrow> string" where
  "field_name n = ''M.f'' @ [digit (n div 10), digit (n mod 10)]"

definition simple_field :: "CppType \<Rightarrow> Label \<Rightarrow> int \<Rightarrow> FieldDescriptor" where
  "simple_field t l n =
     \<lparr>number = n, full_name = field_name n, cpp_type = t, label = l,
      has_presence = (l \<noteq> LABEL_REPEATED), containing_oneof = None\<rparr>"

definition uniform_message :: "nat \<Rightarrow> CppType \<Rightarrow> Label \<Rightarrow> Descriptor" where
  "uniform_message k t l =
     \<lparr>msg_full_name = ''M'', map_entry = False,
      field = map (\<lambda>n. simple_field t l (int n)) [1..<Suc k], oneof_decl = []\<rparr>"

definition some_indeterminate :: indeterminate where
  "some_indeterminate =
     \<lparr>ind_maxalign = mkSize 3 5, ind_size = mkSize 7 11, ind_hasbit_count = 13,
      ind_hasbit_bytes = 17, ind_required_count = 19\<rparr>"

text \<open>A singular enum field.\<close>

definition enum_field :: FieldDescriptor where
  "enum_field = simple_field CPPTYPE_ENUM LABEL_OPTIONAL 1"

text \<open>The map-entry message of a \<^verbatim>\<open>map<int32, Sub>\<close> field: an int32 key and a
  message-typed value.\<close>

definition entry_key :: FieldDescriptor where
  "entry_key =
     \<lparr>number = 1, full_name = ''M.ItemsEntry.key'', cpp_type = CPPTYPE_INT32,
      label = LABEL_OPTIONAL, has_presence = False, containing_oneof = None\<rparr>"

definition entry_value :: FieldDescriptor where
  "entry_value =
     \<lparr>number = 2, full_name = ''M.ItemsEntry.value'', cpp_type = CPPTYPE_MESSAGE,
      label = LABEL_OPTIONAL, has_presence = True, containing_oneof = None\<rparr>"

definition entry_message :: Descriptor where
  "entry_message =
     \<lparr>msg_full_name = ''M.ItemsEntry'', map_entry = True,
      field = [entry_key, entry_value], oneof_decl = []\<rparr>"

text \<open>A message with a required and an optional field and two oneofs, declared out of
  order: \<open>M.choice\<close> holds an int32 and a message, \<open>M.alt\<close> a bool.\<close>

definition oneof_choice :: OneofDescriptor where
  "oneof_choice = \<lparr>oneof_full_name = ''M.choice'', is_synthetic = False\<rparr>"

definition oneof_alt :: OneofDescriptor where
  "oneof_alt = \<lparr>oneof_full_name = ''M.alt'', is_synthetic = False\<rparr>"

definition member_field :: "CppType \<Rightarrow> OneofDescriptor \<Rightarrow> int \<Rightarrow> FieldDescriptor" where
  "member_field t oneof n =
     \<lparr>number = n, full_name = field_name n, cpp_type = t, label = LABEL_OPTIONAL,
      has_presence = True, containing_oneof = Some oneof\<rparr>"

definition mixed_message :: Descriptor where
  "mixed_message =
     \<lparr>msg_full_name = ''M'', map_entry = False,
      field = [member_field CPPTYPE_INT32 oneof_choice 3,
               simple_field CPPTYPE_STRING LABEL_OPTIONAL 2,
               member_field CPPTYPE_BOOL oneof_alt 5,
               simple_field CPPTYPE_INT32 LABEL_REQUIRED 1,
               member_field CPPTYPE_MESSAGE oneof_choice 4],
      oneof_decl = [oneof_choice, oneof_alt]\<rparr>"

text \<open>The same message with its fields and its oneofs declared in another order, and
  another state of the uninitialised members.\<close>

definition mixed_message_reordered :: Descriptor where
  "mixed_message_reordered =
     \<lparr>msg_full_name = ''M'', map_entry = False,
      field = [simple_field CPPTYPE_INT32 LABEL_REQUIRED 1,
               simple_field CPPTYPE_STRING LABEL_OPTIONAL 2,
               member_field CPPTYPE_MESSAGE oneof_choice 4,
               member_field CPPTYPE_INT32 oneof_choice 3,
               member_field CPPTYPE_BOOL oneof_alt 5],
      oneof_decl = [oneof_alt, oneof_choice]\<rparr>"

definition other_indeterminate :: indeterminate where
  "other_indeterminate =
     \<lparr>ind_maxalign = mkSize 0 0, ind_size = mkSize 1 2, ind_hasbit_count = 99,
      ind_hasbit_bytes = 98, ind_required_count = 97\<rparr>"


section \<open>Size arithmetic and the placement loops\<close>

lemma and_not_eq_minus_and_int: "(x::int) AND NOT m = x - (x AND m)"
proof -
  have "(x AND m) AND (x AND NOT m) = 0"
    by (simp add: bit_eq_iff bit_simps)
  then have "(x AND m) + (x AND NOT m) = (x AND m) OR (x AND NOT m)"
    by (rule disjunctive_add_eq_or)
  also have "\<dots> = x"
    by (auto simp: bit_eq_iff bit_simps)
  finally show ?thesis by simp
qed

lemma and_not_mask_int: "(x::int) AND NOT (mask k) = x - x mod 2 ^ k"
  by (simp add: and_not_eq_minus_and_int take_bit_eq_mask [symmetric] take_bit_eq_mod)

lemma Align_pow2: "Align v (2 ^ k) = (v + 2 ^ k - 1) - (v + 2 ^ k - 1) mod 2 ^ k"
  by (simp add: Align_def mask_eq_exp_minus_1 [symmetric] and_not_mask_int)

lemma Align_pow2_ge: "v \<le> Align v (2 ^ k)"
proof -
  have "(v + 2 ^ k - 1) mod 2 ^ k < (2::int) ^ k" by simp
  then show ?thesis unfolding Align_pow2 by linarith
qed

lemma Align_pow2_dvd: "(2::int) ^ k dvd Align v (2 ^ k)"
  unfolding Align_pow2 by (rule dvd_minus_mod)

lemma Align_pow2_id: "(2::int) ^ k dvd v \<Longrightarrow> Align v (2 ^ k) = v"
proof -
  assume "(2::int) ^ k dvd v"
  then obtain q where q: "v = 2 ^ k * q" by (auto simp: dvd_def)
  have "(2 ^ k * q + (2 ^ k - 1)) mod 2 ^ k = (2 ^ k - 1 :: int) mod 2 ^ k"
    by (rule mod_mult_self4)
  also have "\<dots> = 2 ^ k - 1"
    by (rule mod_pos_pos_trivial) simp_all
  finally have "(2 ^ k * q + 2 ^ k - 1) mod 2 ^ k = (2 ^ k - 1 :: int)"
    by (simp add: algebra_simps)
  then show ?thesis unfolding Align_pow2 q by simp
qed

lemma Align_1 [simp]: "Align v 1 = v"
  using Align_pow2 [of v 0] by simp

lemma Align_0 [simp]: "Align v 0 = 0"
  by (simp add: Align_def)

lemma Align_ge: "0 \<le> v \<Longrightarrow> 1 \<le> a \<Longrightarrow> v \<le> Align v a"
proof -
  assume v: "0 \<le> v" and a: "1 \<le> a"
  have "(v + a - 1) AND (a - 1) \<le> a - 1"
    using a by (intro AND_upper2) simp
  then show ?thesis
    unfolding Align_def and_not_eq_minus_and_int by linarith
qed

lemma Align_good_ge: "a = 1 \<or> a = 4 \<or> a = 8 \<Longrightarrow> v \<le> Align v a"
  using Align_pow2_ge [of v 0] Align_pow2_ge [of v 2] Align_pow2_ge [of v 3] by auto


lemma Size_le_refl [simp]: "Size_le a a"
  by (simp add: Size_le_def)

lemma Size_le_trans: "Size_le a b \<Longrightarrow> Size_le b c \<Longrightarrow> Size_le a c"
  by (auto simp: Size_le_def)

lemma AlignUp_good_ge: "good_align a \<Longrightarrow> Size_le s (AlignUp s a)"
  by (simp add: Size_le_def AlignUp_def mkSize_def good_align_def Align_good_ge)

lemma SizeOf_good_align: "good_align (sa_align (SizeOf f))"
  by (cases "cpp_type f") (simp_all add: SizeOf_def good_align_def mkSA_def mkSize_def)

lemma SizeOf_size_pos: "Size_le (mkSize 1 1) (sa_size (SizeOf f))"
  by (cases "cpp_type f") (simp_all add: SizeOf_def Size_le_def mkSA_def mkSize_def)

subsection \<open>Place\<close>

lemma fst_Place: "fst (Place sa L) = AlignUp (m_size L) (sa_align sa)"
  by (simp add: Place_def Let_def)

lemma snd_Place:
  "snd (Place sa L) =
     L\<lparr>m_size := Add (AlignUp (m_size L) (sa_align sa)) (sa_size sa),
       m_maxalign := MaxFrom (m_maxalign L) (sa_size sa),
       asserts_ok := asserts_ok L \<and> AlignUp_asserts (sa_align sa)\<rparr>"
  by (simp add: Place_def Let_def)

lemma Place_eq: "Place sa L = (AlignUp (m_size L) (sa_align sa), snd (Place sa L))"
  by (simp add: Place_def Let_def)

lemma Add_mono_left: "Size_le a b \<Longrightarrow> Size_le (Add a s) (Add b s)"
  by (simp add: Size_le_def Add_def mkSize_def)

lemma Size_le_Add: "Size_le (mkSize 0 0) s \<Longrightarrow> Size_le a (Add a s)"
  by (simp add: Size_le_def Add_def mkSize_def)

subsection \<open>place_fields\<close>

lemma place_fields_frame:
  "m_hasbit_indexes (place_fields fs L) = m_hasbit_indexes L"
  "m_oneof_case_offsets (place_fields fs L) = m_oneof_case_offsets L"
  "m_hasbit_count (place_fields fs L) = m_hasbit_count L"
  "m_hasbit_bytes (place_fields fs L) = m_hasbit_bytes L"
  "m_required_count (place_fields fs L) = m_required_count L"
  by (induction fs arbitrary: L; simp add: Place_def Let_def)+

lemma place_fields_size_mono: "Size_le (m_size L) (m_size (place_fields fs L))"
proof (induction fs arbitrary: L)
  case Nil
  show ?case by simp
next
  case (Cons f fs)
  let ?off = "AlignUp (m_size L) (sa_align (SizeOf f))"
  let ?L1 = "(snd (Place (SizeOf f) L))\<lparr>m_field_offsets := (m_field_offsets (snd (Place (SizeOf f) L)))(f \<mapsto> ?off)\<rparr>"
  have step: "place_fields (f # fs) L = place_fields fs ?L1"
    by (simp add: Place_def Let_def)
  have sz1: "m_size ?L1 = Add ?off (sa_size (SizeOf f))"
    by (simp add: snd_Place)
  have 1: "Size_le (m_size L) ?off"
    by (rule AlignUp_good_ge [OF SizeOf_good_align])
  have 2: "Size_le ?off (m_size ?L1)"
    unfolding sz1 using SizeOf_size_pos [of f] by (simp add: Size_le_def Add_def mkSize_def)
  show ?case
    unfolding step using Size_le_trans [OF Size_le_trans [OF 1 2] Cons.IH [of ?L1]] .
qed

lemma place_fields_other:
  "f \<notin> set fs \<Longrightarrow> m_field_offsets (place_fields fs L) f = m_field_offsets L f"
  by (induction fs arbitrary: L) (auto simp: Place_def Let_def)

lemma place_fields_offset:
  assumes "distinct fs" "f \<in> set fs"
  shows "\<exists>off. m_field_offsets (place_fields fs L) f = Some off
           \<and> Size_le (m_size L) off
           \<and> Size_le (Add off (sa_size (SizeOf f))) (m_size (place_fields fs L))"
  using assms
proof (induction fs arbitrary: L)
  case Nil
  then show ?case by simp
next
  case (Cons g fs)
  let ?off = "AlignUp (m_size L) (sa_align (SizeOf g))"
  let ?L1 = "(snd (Place (SizeOf g) L))\<lparr>m_field_offsets := (m_field_offsets (snd (Place (SizeOf g) L)))(g \<mapsto> ?off)\<rparr>"
  have step: "place_fields (g # fs) L = place_fields fs ?L1"
    by (simp add: Place_def Let_def)
  have sz1: "m_size ?L1 = Add ?off (sa_size (SizeOf g))"
    by (simp add: snd_Place)
  have le1: "Size_le (m_size L) ?off"
    by (rule AlignUp_good_ge [OF SizeOf_good_align])
  have le2: "Size_le ?off (m_size ?L1)"
    unfolding sz1 using SizeOf_size_pos [of g] by (simp add: Size_le_def Add_def mkSize_def)
  show ?case
  proof (cases "f = g")
    case True
    with Cons.prems have "g \<notin> set fs" by simp
    then have "m_field_offsets (place_fields fs ?L1) g = Some ?off"
      by (simp add: place_fields_other)
    moreover have "Size_le (Add ?off (sa_size (SizeOf g))) (m_size (place_fields fs ?L1))"
      using place_fields_size_mono [of ?L1 fs] by (simp add: sz1)
    ultimately show ?thesis
      unfolding step using le1 True by blast
  next
    case False
    with Cons.prems have "distinct fs" "f \<in> set fs" by simp_all
    from Cons.IH [OF this, of ?L1] obtain off where
      off: "m_field_offsets (place_fields fs ?L1) f = Some off"
        "Size_le (m_size ?L1) off"
        "Size_le (Add off (sa_size (SizeOf f))) (m_size (place_fields fs ?L1))"
      by blast
    have "Size_le (m_size L) off"
      using Size_le_trans [OF Size_le_trans [OF le1 le2] off(2)] .
    with off show ?thesis unfolding step by blast
  qed
qed


subsection \<open>Oneof shapes\<close>

lemma fold_upd_const:
  "fold (\<lambda>f m. m(f \<mapsto> data)) fs m = (\<lambda>f. if f \<in> set fs then Some data else m f)"
proof (induction fs arbitrary: m)
  case Nil
  show ?case by simp
next
  case (Cons g fs)
  show ?case
    unfolding fold_Cons comp_apply Cons.IH by (rule ext) simp
qed

lemma set_data_offsets_fold:
  "set_data_offsets fs data L =
     L\<lparr>m_field_offsets := fold (\<lambda>f m. m(f \<mapsto> data)) fs (m_field_offsets L)\<rparr>"
  by (induction fs arbitrary: L) simp_all

lemma set_data_offsets_eq:
  "set_data_offsets fs data L =
     L\<lparr>m_field_offsets := (\<lambda>f. if f \<in> set fs then Some data else m_field_offsets L f)\<rparr>"
  unfolding set_data_offsets_fold fold_upd_const ..

lemma oneof_maxsize_good_acc:
  "good_align (sa_align acc) \<Longrightarrow> good_align (sa_align (oneof_maxsize fs acc))"
proof (induction fs arbitrary: acc)
  case Nil
  then show ?case by simp
next
  case (Cons f fs)
  have "good_align (sa_align (SA_MaxFrom acc (SizeOf f)))"
    using Cons.prems SizeOf_good_align [of f]
    by (auto simp: SA_MaxFrom_def MaxFrom_def mkSize_def good_align_def max_def)
  then show ?case by (simp add: Cons.IH)
qed

lemma oneof_shape_good_align:
  assumes "oneof_field d oneof \<noteq> []"
  shows "good_align (sa_align (oneof_shape d oneof))"
proof -
  from assms obtain f fs where fs: "oneof_field d oneof = f # fs"
    by (cases "oneof_field d oneof") auto
  have "good_align (sa_align (SA_MaxFrom (mkSA 0 0 0 0) (SizeOf f)))"
    using SizeOf_good_align [of f]
    by (auto simp: SA_MaxFrom_def MaxFrom_def mkSize_def mkSA_def good_align_def max_def)
  then show ?thesis
    by (simp add: oneof_shape_def fs oneof_maxsize_good_acc)
qed

lemma oneof_maxsize_size_ge: "Size_le (sa_size acc) (sa_size (oneof_maxsize fs acc))"
proof (induction fs arbitrary: acc)
  case Nil
  show ?case by simp
next
  case (Cons f fs)
  have "Size_le (sa_size acc) (sa_size (SA_MaxFrom acc (SizeOf f)))"
    by (simp add: SA_MaxFrom_def MaxFrom_def mkSize_def Size_le_def)
  from Size_le_trans [OF this Cons.IH] show ?case by simp
qed

lemma oneof_shape_size_nonneg: "Size_le (mkSize 0 0) (sa_size (oneof_shape d oneof))"
  using oneof_maxsize_size_ge [of "mkSA 0 0 0 0" "oneof_field d oneof"]
  by (simp add: oneof_shape_def mkSA_def)

subsection \<open>place_oneofs\<close>

lemma place_oneofs_Cons: "place_oneofs d (oneof # rest) L = place_oneofs d rest (place_oneof d oneof L)"
  by (simp add: place_oneof_def oneof_shape_def oneof_data_def oneof_discriminator_def
      Place_def Let_def mkSA_def)

lemma place_oneof_size:
  "m_size (place_oneof d oneof L) = Add (oneof_discriminator d oneof (oneof_data d oneof L)) (mkSize 4 4)"
  by (simp add: place_oneof_def set_data_offsets_eq snd_Place oneof_discriminator_def
      oneof_data_def mkSA_def)

lemma place_oneof_field_offsets:
  "m_field_offsets (place_oneof d oneof L) =
     (\<lambda>f. if f \<in> set (oneof_field d oneof) then Some (oneof_data d oneof L) else m_field_offsets L f)"
  by (simp add: place_oneof_def set_data_offsets_eq snd_Place cong: if_cong)

lemma place_oneof_case_offsets:
  "m_oneof_case_offsets (place_oneof d oneof L) =
     (m_oneof_case_offsets L)(oneof \<mapsto> oneof_discriminator d oneof (oneof_data d oneof L))"
  by (simp add: place_oneof_def set_data_offsets_eq snd_Place)

lemma place_oneof_frame:
  "m_hasbit_indexes (place_oneof d oneof L) = m_hasbit_indexes L"
  "m_hasbit_count (place_oneof d oneof L) = m_hasbit_count L"
  "m_hasbit_bytes (place_oneof d oneof L) = m_hasbit_bytes L"
  "m_required_count (place_oneof d oneof L) = m_required_count L"
  by (simp_all add: place_oneof_def set_data_offsets_eq snd_Place)

lemma place_oneofs_frame:
  "m_hasbit_indexes (place_oneofs d os L) = m_hasbit_indexes L"
  "m_hasbit_count (place_oneofs d os L) = m_hasbit_count L"
  "m_hasbit_bytes (place_oneofs d os L) = m_hasbit_bytes L"
  "m_required_count (place_oneofs d os L) = m_required_count L"
  by (induction os arbitrary: L; simp only: place_oneofs_Cons place_oneofs.simps place_oneof_frame)+

lemma place_oneof_data_ge:
  "oneof_field d oneof \<noteq> [] \<Longrightarrow> Size_le (m_size L) (oneof_data d oneof L)"
  unfolding oneof_data_def by (rule AlignUp_good_ge [OF oneof_shape_good_align])

lemma oneof_discriminator_ge:
  "Size_le (Add data (sa_size (oneof_shape d oneof))) (oneof_discriminator d oneof data)"
  unfolding oneof_discriminator_def
  by (rule AlignUp_good_ge) (simp add: good_align_def mkSize_def)

lemma data_le_discriminator: "Size_le data (oneof_discriminator d oneof data)"
  using oneof_discriminator_ge [of data d oneof] oneof_shape_size_nonneg [of d oneof]
  by (simp add: Size_le_def Add_def mkSize_def)

lemma place_oneof_size_mono:
  assumes "oneof_field d oneof \<noteq> []"
  shows "Size_le (m_size L) (m_size (place_oneof d oneof L))"
proof -
  have "Size_le (oneof_discriminator d oneof (oneof_data d oneof L)) (m_size (place_oneof d oneof L))"
    by (simp add: place_oneof_size Size_le_def Add_def mkSize_def)
  from Size_le_trans [OF Size_le_trans [OF place_oneof_data_ge [OF assms] data_le_discriminator] this]
  show ?thesis .
qed

lemma place_oneofs_size_mono:
  "\<forall>oneof\<in>set os. oneof_field d oneof \<noteq> [] \<Longrightarrow> Size_le (m_size L) (m_size (place_oneofs d os L))"
proof (induction os arbitrary: L)
  case Nil
  show ?case by simp
next
  case (Cons x os)
  have "Size_le (m_size L) (m_size (place_oneof d x L))"
    using Cons.prems by (simp add: place_oneof_size_mono)
  moreover have "Size_le (m_size (place_oneof d x L)) (m_size (place_oneofs d os (place_oneof d x L)))"
    using Cons.prems by (intro Cons.IH) simp
  ultimately show ?case
    unfolding place_oneofs_Cons by (rule Size_le_trans)
qed

lemma place_oneofs_other_case:
  "oneof \<notin> set os \<Longrightarrow> m_oneof_case_offsets (place_oneofs d os L) oneof = m_oneof_case_offsets L oneof"
  by (induction os arbitrary: L) (simp_all only: place_oneofs_Cons place_oneofs.simps, simp_all add: place_oneof_case_offsets)

lemma place_oneofs_other_field:
  "\<forall>oneof\<in>set os. f \<notin> set (oneof_field d oneof) \<Longrightarrow>
   m_field_offsets (place_oneofs d os L) f = m_field_offsets L f"
  by (induction os arbitrary: L) (simp_all only: place_oneofs_Cons place_oneofs.simps, simp_all add: place_oneof_field_offsets)

lemma oneof_field_disjoint:
  "f \<in> set (oneof_field d a) \<Longrightarrow> a \<noteq> b \<Longrightarrow> f \<notin> set (oneof_field d b)"
  by (auto simp: oneof_field_def)

lemma place_oneofs_offset:
  assumes "distinct os" "oneof \<in> set os" "\<forall>x\<in>set os. oneof_field d x \<noteq> []"
  shows "\<exists>L'. Size_le (m_size L) (m_size L')
            \<and> oneof_placed d oneof L' (place_oneofs d os L)
            \<and> Size_le (m_size (place_oneof d oneof L')) (m_size (place_oneofs d os L))"
  using assms
proof (induction os arbitrary: L)
  case Nil
  then show ?case by simp
next
  case (Cons x os)
  let ?L1 = "place_oneof d x L"
  have ne: "\<forall>y\<in>set os. oneof_field d y \<noteq> []" and nex: "oneof_field d x \<noteq> []"
    using Cons.prems by simp_all
  show ?case
  proof (cases "oneof = x")
    case True
    with Cons.prems have notin: "x \<notin> set os" by simp
    have fields: "\<forall>f\<in>set (oneof_field d x). m_field_offsets (place_oneofs d os ?L1) f = Some (oneof_data d x L)"
    proof
      fix f assume f: "f \<in> set (oneof_field d x)"
      have "\<forall>y\<in>set os. f \<notin> set (oneof_field d y)"
        using f notin by (auto simp: oneof_field_def)
      then show "m_field_offsets (place_oneofs d os ?L1) f = Some (oneof_data d x L)"
        using f by (simp add: place_oneofs_other_field place_oneof_field_offsets)
    qed
    have "m_oneof_case_offsets (place_oneofs d os ?L1) x = Some (oneof_discriminator d x (oneof_data d x L))"
      using notin by (simp add: place_oneofs_other_case place_oneof_case_offsets)
    with fields have "oneof_placed d x L (place_oneofs d os ?L1)"
      by (simp add: oneof_placed_def)
    moreover have "Size_le (m_size ?L1) (m_size (place_oneofs d os ?L1))"
      by (rule place_oneofs_size_mono [OF ne])
    ultimately show ?thesis
      unfolding place_oneofs_Cons True using Size_le_refl by blast
  next
    case False
    with Cons.prems have "distinct os" "oneof \<in> set os" by simp_all
    from Cons.IH [OF this ne, of ?L1] obtain L' where
      L': "Size_le (m_size ?L1) (m_size L')" "oneof_placed d oneof L' (place_oneofs d os ?L1)"
        "Size_le (m_size (place_oneof d oneof L')) (m_size (place_oneofs d os ?L1))"
      by blast
    have "Size_le (m_size L) (m_size L')"
      using Size_le_trans [OF place_oneof_size_mono [OF nex] L'(1)] .
    with L' show ?thesis unfolding place_oneofs_Cons by blast
  qed
qed


subsection \<open>place_hasbits\<close>

lemma place_hasbits_filter:
  "place_hasbits d fs L = place_hasbits d (filter (HasHasbit d) fs) L"
  by (induction fs arbitrary: L) (simp_all add: Let_def)

lemma place_hasbits_append:
  "place_hasbits d (xs @ ys) L =
     (case place_hasbits d xs L of Inl e \<Rightarrow> Inl e | Inr L' \<Rightarrow> place_hasbits d ys L')"
  by (induction xs arbitrary: L) (simp_all add: Let_def)

lemma place_hasbits_frame:
  assumes "place_hasbits d fs L = Inr L'"
  shows "m_field_offsets L' = m_field_offsets L"
    and "m_oneof_case_offsets L' = m_oneof_case_offsets L"
    and "m_size L' = m_size L"
    and "m_maxalign L' = m_maxalign L"
    and "m_hasbit_bytes L' = m_hasbit_bytes L"
    and "asserts_ok L' = asserts_ok L"
  using assms
  by (induction fs arbitrary: L; fastforce simp: Let_def split: if_splits)+

lemma place_hasbits_count:
  assumes "place_hasbits d fs L = Inr L'"
  shows "m_hasbit_count L' = m_hasbit_count L + int (length (filter (HasHasbit d) fs))"
    and "m_required_count L' =
           m_required_count L + int (length (filter (\<lambda>f. HasHasbit d f \<and> is_required f) fs))"
  using assms
  by (induction fs arbitrary: L; fastforce simp: Let_def split: if_splits)+

lemma place_hasbits_other:
  assumes "place_hasbits d fs L = Inr L'" "\<not> (f \<in> set fs \<and> HasHasbit d f)"
  shows "m_hasbit_indexes L' f = m_hasbit_indexes L f"
  using assms
  by (induction fs arbitrary: L) (fastforce simp: Let_def split: if_splits)+

lemma place_hasbits_index:
  assumes "place_hasbits d fs L = Inr L'" "distinct fs" "i < length (filter (HasHasbit d) fs)"
  shows "m_hasbit_indexes L' (filter (HasHasbit d) fs ! i) = Some (m_hasbit_count L + 1 + int i)"
  using assms
proof (induction fs arbitrary: L i)
  case Nil
  then show ?case by simp
next
  case (Cons f fs)
  show ?case
  proof (cases "HasHasbit d f")
    case False
    with Cons.prems have "place_hasbits d fs L = Inr L'" "distinct fs"
      "i < length (filter (HasHasbit d) fs)" by simp_all
    from Cons.IH [OF this] False show ?thesis by simp
  next
    case True
    define L1 where "L1 = L\<lparr>m_hasbit_count := m_hasbit_count L + 1,
        m_hasbit_indexes := (m_hasbit_indexes L)(f \<mapsto> m_hasbit_count L + 1)\<rparr>"
    define L2 where "L2 = (if is_required f then L1\<lparr>m_required_count := m_required_count L1 + 1\<rparr> else L1)"
    have run: "place_hasbits d fs L2 = Inr L'"
      using Cons.prems(1) True by (auto simp: Let_def L1_def L2_def split: if_splits)
    have L2: "m_hasbit_count L2 = m_hasbit_count L + 1"
      "m_hasbit_indexes L2 = (m_hasbit_indexes L)(f \<mapsto> m_hasbit_count L + 1)"
      by (simp_all add: L1_def L2_def)
    show ?thesis
    proof (cases i)
      case 0
      have "\<not> (f \<in> set fs \<and> HasHasbit d f)" using Cons.prems(2) by simp
      from place_hasbits_other [OF run this] show ?thesis
        using True 0 by (simp add: L2)
    next
      case (Suc i')
      with Cons.prems True have "distinct fs" "i' < length (filter (HasHasbit d) fs)" by simp_all
      from Cons.IH [OF run this] show ?thesis
        using True Suc by (simp add: L2)
    qed
  qed
qed

text \<open>Fields that are not required never end the run.\<close>

lemma place_hasbits_no_required:
  "\<forall>f\<in>set fs. \<not> is_required f \<Longrightarrow> \<exists>L'. place_hasbits d fs L = Inr L'"
  by (induction fs arbitrary: L) (simp_all add: Let_def)

text \<open>Required fields with a presence bit: the run ends at the field that would get index 64.\<close>

lemma place_hasbits_required_ok:
  assumes "\<forall>f\<in>set fs. is_required f \<and> HasHasbit d f"
    and "m_hasbit_count L + int (length fs) \<le> 63"
  shows "\<exists>L'. place_hasbits d fs L = Inr L'"
  using assms
proof (induction fs arbitrary: L)
  case Nil
  show ?case by simp
next
  case (Cons f fs)
  let ?L2 = "L\<lparr>m_hasbit_count := m_hasbit_count L + 1,
        m_hasbit_indexes := (m_hasbit_indexes L)(f \<mapsto> m_hasbit_count L + 1),
        m_required_count := m_required_count L + 1\<rparr>"
  have step: "place_hasbits d (f # fs) L = place_hasbits d fs ?L2"
    using Cons.prems by (simp add: Let_def)
  have "\<exists>L'. place_hasbits d fs ?L2 = Inr L'"
    using Cons.prems by (intro Cons.IH) simp_all
  then show ?case unfolding step .
qed

lemma place_hasbits_required_fail:
  assumes "\<forall>f\<in>set fs. is_required f \<and> HasHasbit d f"
    and "m_hasbit_count L \<le> 63"
    and "63 < m_hasbit_count L + int (length fs)"
  shows "place_hasbits d fs L = Inl (TooManyRequired (full_name (fs ! nat (63 - m_hasbit_count L))))"
  using assms
proof (induction fs arbitrary: L)
  case Nil
  then show ?case by simp
next
  case (Cons f fs)
  show ?case
  proof (cases "m_hasbit_count L = 63")
    case True
    then show ?thesis using Cons.prems(1) by (simp add: Let_def)
  next
    case False
    let ?L2 = "L\<lparr>m_hasbit_count := m_hasbit_count L + 1,
        m_hasbit_indexes := (m_hasbit_indexes L)(f \<mapsto> m_hasbit_count L + 1),
        m_required_count := m_required_count L + 1\<rparr>"
    have lt: "m_hasbit_count L < 63" using False Cons.prems(2) by simp
    have step: "place_hasbits d (f # fs) L = place_hasbits d fs ?L2"
      using Cons.prems(1) lt by (simp add: Let_def)
    have "place_hasbits d fs ?L2 = Inl (TooManyRequired (full_name (fs ! nat (63 - m_hasbit_count ?L2))))"
      using Cons.prems lt by (intro Cons.IH) simp_all
    moreover have "nat (63 - m_hasbit_count L) = Suc (nat (63 - m_hasbit_count ?L2))"
      using lt by simp
    ultimately show ?thesis unfolding step by simp
  qed
qed

subsection \<open>The hotness order\<close>

lemma required_first:
  assumes "sorted (map (\<lambda>f. (\<not> is_required f, number f)) xs)"
  shows "xs = filter is_required xs @ filter (\<lambda>f. \<not> is_required f) xs"
  using assms
proof (induction xs)
  case Nil
  show ?case by simp
next
  case (Cons x xs)
  then have IH: "xs = filter is_required xs @ filter (\<lambda>f. \<not> is_required f) xs"
    and le: "\<forall>y\<in>set xs. (\<not> is_required x, number x) \<le> (\<not> is_required y, number y)"
    by simp_all
  show ?case
  proof (cases "is_required x")
    case True
    then show ?thesis using IH by simp
  next
    case False
    with le have "\<forall>y\<in>set xs. \<not> is_required y"
      by (auto simp: less_eq_prod_def)
    then have "filter is_required xs = []" "filter (\<lambda>f. \<not> is_required f) xs = xs"
      by (simp_all add: filter_empty_conv)
    with False show ?thesis by simp
  qed
qed

lemma sorted_tracked: "sorted (map (\<lambda>f. (\<not> is_required f, number f)) (tracked d))"
  unfolding tracked_def FieldHotnessOrder_def by (intro sorted_filter sorted_sort_key)

lemma tracked_split:
  "tracked d = filter is_required (tracked d) @ filter (\<lambda>f. \<not> is_required f) (tracked d)"
  by (rule required_first [OF sorted_tracked])

lemma length_required_tracked:
  "length (filter is_required (tracked d)) =
     length (filter (\<lambda>f. is_required f \<and> HasHasbit d f) (field d))"
proof -
  have "filter is_required (tracked d) =
          sort_key (\<lambda>f. (\<not> is_required f, number f)) (filter (\<lambda>f. is_required f \<and> HasHasbit d f) (field d))"
    by (simp add: tracked_def FieldHotnessOrder_def filter_sort conj_commute)
  then show ?thesis by simp
qed

lemma length_tracked: "length (tracked d) = length (filter (HasHasbit d) (field d))"
  by (simp add: tracked_def FieldHotnessOrder_def filter_sort)

lemma place_hasbits_hot:
  assumes "m_hasbit_count L = 0"
  shows "if length (filter is_required (tracked d)) \<le> 63
         then (\<exists>L'. place_hasbits d (FieldHotnessOrder d) L = Inr L')
         else place_hasbits d (FieldHotnessOrder d) L =
                Inl (TooManyRequired (full_name (filter is_required (tracked d) ! 63)))"
proof -
  let ?rs = "filter is_required (tracked d)"
  let ?ns = "filter (\<lambda>f. \<not> is_required f) (tracked d)"
  have run: "place_hasbits d (FieldHotnessOrder d) L =
      (case place_hasbits d ?rs L of Inl e \<Rightarrow> Inl e | Inr L' \<Rightarrow> place_hasbits d ?ns L')"
    using place_hasbits_filter [of d "FieldHotnessOrder d" L] tracked_split [of d]
      place_hasbits_append [of d ?rs ?ns L]
    by (simp add: tracked_def)
  have rs: "\<forall>f\<in>set ?rs. is_required f \<and> HasHasbit d f"
    by (simp add: tracked_def)
  show ?thesis
  proof (cases "length ?rs \<le> 63")
    case True
    with assms have "m_hasbit_count L + int (length ?rs) \<le> 63" by simp
    from place_hasbits_required_ok [OF rs this] obtain L1 where
      L1: "place_hasbits d ?rs L = Inr L1" ..
    have "\<forall>f\<in>set ?ns. \<not> is_required f" by simp
    from place_hasbits_no_required [OF this, of d L1] show ?thesis
      using True by (simp add: run L1)
  next
    case False
    with assms have "m_hasbit_count L \<le> 63" "63 < m_hasbit_count L + int (length ?rs)"
      by simp_all
    from place_hasbits_required_fail [OF rs this] show ?thesis
      using False assms by (simp add: run)
  qed
qed

lemma sort_by_rank_non_oneof:
  "sort_by_rank (non_oneof_fields d) = Inr (field_order d)"
proof -
  have "find (\<lambda>f. isl (FieldLayoutRank f)) (non_oneof_fields d) = None"
    by (simp add: find_None_iff non_oneof_fields_def FieldLayoutRank_def)
  then show ?thesis by (simp add: sort_by_rank_def field_order_def)
qed

lemma ComputeLayout_ordinary:
  assumes "\<not> map_entry d"
  shows "ComputeLayout d L =
    (case place_hasbits d (FieldHotnessOrder d) (start L) of
       Inl e \<Rightarrow> Inl e
     | Inr L1 \<Rightarrow> Inr (finish (place_oneofs d (oneof_order d)
                          (place_fields (field_order d) (hasbits_placed L1)))))"
  using assms sort_by_rank_non_oneof [of d]
  by (simp add: ComputeLayout_def PlaceNonOneofFields_def PlaceOneofFields_def Let_def
      non_oneof_fields_def start_def hasbits_placed_def finish_def oneof_order_def
      split: sum.splits)

lemma ComputeLayout_ordinary_Inr:
  assumes "\<not> map_entry d" "ComputeLayout d L = Inr L'"
  obtains L1 where "place_hasbits d (FieldHotnessOrder d) (start L) = Inr L1"
    and "L' = finish (place_oneofs d (oneof_order d) (place_fields (field_order d) (hasbits_placed L1)))"
  using assms by (auto simp: ComputeLayout_ordinary split: sum.splits)

lemma ComputeLayout_map_entry:
  assumes "map_entry d"
  shows "ComputeLayout d L =
     Inr (finish (place_map_entry_field d 2 (place_map_entry_field d 1
            (L\<lparr>m_size := mkSize 0 0, m_maxalign := mkSize 8 8\<rparr>))))"
  using assms by (simp add: ComputeLayout_def Let_def finish_def)

lemma hasbits_placed_size:
  "m_size L1 = mkSize 0 0 \<Longrightarrow>
   m_size (hasbits_placed L1) =
     mkSize (DivRoundUp (m_hasbit_count L1) 8) (DivRoundUp (m_hasbit_count L1) 8)"
  by (simp add: hasbits_placed_def snd_Place AlignUp_def Add_def mkSize_def)

lemma hasbits_placed_simps:
  "m_maxalign (hasbits_placed L1) = MaxFrom (m_maxalign L1) (mkSize (DivRoundUp (m_hasbit_count L1) 8) (DivRoundUp (m_hasbit_count L1) 8))"
  "m_field_offsets (hasbits_placed L1) = m_field_offsets L1"
  "m_oneof_case_offsets (hasbits_placed L1) = m_oneof_case_offsets L1"
  "m_hasbit_indexes (hasbits_placed L1) = m_hasbit_indexes L1"
  "m_hasbit_count (hasbits_placed L1) = m_hasbit_count L1"
  "m_required_count (hasbits_placed L1) = m_required_count L1"
  "m_hasbit_bytes (hasbits_placed L1) = DivRoundUp (m_hasbit_count L1) 8"
  by (simp_all add: hasbits_placed_def snd_Place)

lemma finish_simps:
  "m_field_offsets (finish L) = m_field_offsets L"
  "m_oneof_case_offsets (finish L) = m_oneof_case_offsets L"
  "m_hasbit_indexes (finish L) = m_hasbit_indexes L"
  "m_hasbit_count (finish L) = m_hasbit_count L"
  "m_required_count (finish L) = m_required_count L"
  "m_hasbit_bytes (finish L) = m_hasbit_bytes L"
  "m_maxalign (finish L) = m_maxalign L"
  "m_size (finish L) = AlignUp (m_size L) (m_maxalign L)"
  by (simp_all add: finish_def)

section \<open>The concrete schemas\<close>

lemma field_uniform: "field (uniform_message k t l) = map (\<lambda>n. simple_field t l (int n)) [1..<Suc k]"
  by (simp add: uniform_message_def)

lemma hot_uniform: "FieldHotnessOrder (uniform_message k t l) = field (uniform_message k t l)"
proof -
  have "sorted_wrt (\<lambda>x y. (\<not> is_required (simple_field t l (int x)), number (simple_field t l (int x)))
          \<le> (\<not> is_required (simple_field t l (int y)), number (simple_field t l (int y)))) [1..<Suc k]"
    by (rule sorted_wrt_mono_rel [of _ "(\<le>)"])
       (simp_all add: simple_field_def is_required_def less_eq_prod_def del: upt_Suc)
  then have "sorted (map (\<lambda>f. (\<not> is_required f, number f)) (field (uniform_message k t l)))"
    by (simp add: field_uniform sorted_map sorted_wrt_map)
  then show ?thesis
    unfolding FieldHotnessOrder_def by (rule sort_key_id_if_sorted)
qed

lemma HasHasbit_uniform:
  "HasHasbit (uniform_message k t l) (simple_field t l n) \<longleftrightarrow> l \<noteq> LABEL_REPEATED"
  by (simp add: HasHasbit_def simple_field_def uniform_message_def real_containing_oneof_def)

lemma tracked_uniform:
  "l \<noteq> LABEL_REPEATED \<Longrightarrow> tracked (uniform_message k t l) = field (uniform_message k t l)"
  unfolding tracked_def hot_uniform
  by (simp add: field_uniform filter_map comp_def HasHasbit_uniform)

lemma required_tracked_uniform:
  "filter is_required (tracked (uniform_message k t LABEL_REQUIRED)) = field (uniform_message k t LABEL_REQUIRED)"
  by (simp add: tracked_uniform) (simp add: field_uniform filter_map comp_def is_required_def simple_field_def)

lemma optional_tracked_uniform:
  "filter is_required (tracked (uniform_message k t LABEL_OPTIONAL)) = []"
  by (simp add: tracked_uniform) (simp add: field_uniform filter_map comp_def is_required_def simple_field_def)

lemma not_map_entry_uniform: "\<not> map_entry (uniform_message k t l)"
  by (simp add: uniform_message_def)

section \<open>The usage limit on required fields\<close>

lemma usage_limit:
  assumes "\<not> map_entry d"
  shows "if length (filter is_required (tracked d)) \<le> 63
         then (\<exists>L'. ComputeLayout d L = Inr L')
         else ComputeLayout d L = Inl (TooManyRequired (full_name (filter is_required (tracked d) ! 63)))"
  using place_hasbits_hot [of "start L" d]
  by (auto simp: ComputeLayout_ordinary [OF assms] start_def split: if_splits)

lemma ComputeLayout_hasbit_count:
  assumes "\<not> map_entry d" "ComputeLayout d L = Inr L'"
  shows "m_hasbit_count L' = int (length (filter (HasHasbit d) (field d)))"
proof -
  from assms obtain L1 where L1: "place_hasbits d (FieldHotnessOrder d) (start L) = Inr L1"
    and L': "L' = finish (place_oneofs d (oneof_order d) (place_fields (field_order d) (hasbits_placed L1)))"
    by (rule ComputeLayout_ordinary_Inr)
  have "m_hasbit_count L1 = int (length (tracked d))"
    using place_hasbits_count(1) [OF L1] by (simp add: start_def tracked_def)
  then show ?thesis
    by (simp add: L' finish_simps place_oneofs_frame place_fields_frame hasbits_placed_simps length_tracked)
qed

lemma qualified_byD:
  assumes "qualified_by scope name"
  shows "\<exists>own. own \<noteq> [] \<and> name = scope @ ''.'' @ own"
proof -
  let ?own = "drop (length scope + 1) name"
  have "name = take (length scope + 1) name @ ?own" by simp
  also have "\<dots> = scope @ ''.'' @ ?own" using assms by (simp add: qualified_by_def)
  finally have "name = scope @ ''.'' @ ?own" .
  moreover have "?own \<noteq> []" using assms by (simp add: qualified_by_def)
  ultimately show ?thesis by blast
qed

lemma required_tracked_subset: "set (filter is_required (tracked d)) \<subseteq> set (field d)"
  by (auto simp: tracked_def FieldHotnessOrder_def)

lemma usage_limit_field:
  assumes "\<not> map_entry d" "ComputeLayout d L = Inl e"
  shows "filter is_required (tracked d) ! 63 \<in> set (field d)"
proof -
  have "63 < length (filter is_required (tracked d))"
    using usage_limit [OF assms(1), of L] assms(2) by (auto split: if_splits)
  then have "filter is_required (tracked d) ! 63 \<in> set (filter is_required (tracked d))"
    by (rule nth_mem)
  then show ?thesis using required_tracked_subset by blast
qed

lemma usage_limit_names_message:
  assumes "\<not> map_entry d" "field_names_qualified d" "ComputeLayout d L = Inl e"
  shows "\<exists>own. own \<noteq> [] \<and> e = TooManyRequired (msg_full_name d @ ''.'' @ own)"
proof -
  let ?f = "filter is_required (tracked d) ! 63"
  have e: "e = TooManyRequired (full_name ?f)"
    using usage_limit [OF assms(1), of L] assms(3) by (auto split: if_splits)
  have "?f \<in> set (field d)" using assms(1,3) by (rule usage_limit_field)
  then have "qualified_by (msg_full_name d) (full_name ?f)"
    using assms(2) by (simp add: field_names_qualified_def list_all_iff)
  then obtain own where "own \<noteq> []" "full_name ?f = msg_full_name d @ ''.'' @ own"
    using qualified_byD by blast
  then show ?thesis using e by blast
qed

lemma field_names_qualified_uniform: "field_names_qualified (uniform_message k t l)"
  by (simp add: field_names_qualified_def list_all_iff field_uniform uniform_message_def
        simple_field_def qualified_by_def field_name_def)

text \<open>
  C1. For an ordinary (not map-entry) message, \<open>ComputeLayout\<close> ends in an error exactly
  when more than 63 required fields carry a presence bit; the only error is the usage limit.
  It is reported with \<^verbatim>\<open>field->full_name()\<close> of the field that would have received index
  64, the 64th required presence-tracked field of the hotness order, which is one of the
  message's fields. With the field names qualified by the message, as protobuf builds them,
  the name reported is the fully-qualified name of the message, a dot and the field's own
  name: the report carries the name of the offending message. When the run succeeds, every
  presence-tracked field has been counted, so fields that are not required receive indices
  above 63 without a failure.
\<close>

theorem usage_limit_failure:
  assumes "\<not> map_entry d"
  shows "((\<exists>e. ComputeLayout d L = Inl e) \<longleftrightarrow>
            63 < length (filter (\<lambda>f. is_required f \<and> HasHasbit d f) (field d)))
       \<and> (\<forall>e. ComputeLayout d L = Inl e \<longrightarrow>
            e = TooManyRequired (full_name (filter is_required (tracked d) ! 63))
            \<and> filter is_required (tracked d) ! 63 \<in> set (field d))
       \<and> (field_names_qualified d \<longrightarrow>
            (\<forall>e. ComputeLayout d L = Inl e \<longrightarrow>
               (\<exists>own. own \<noteq> [] \<and> e = TooManyRequired (msg_full_name d @ ''.'' @ own))))
       \<and> (\<forall>L'. ComputeLayout d L = Inr L' \<longrightarrow>
            m_hasbit_count L' = int (length (filter (HasHasbit d) (field d))))"
proof (intro conjI allI impI)
  show "(\<exists>e. ComputeLayout d L = Inl e) \<longleftrightarrow>
          63 < length (filter (\<lambda>f. is_required f \<and> HasHasbit d f) (field d))"
    using usage_limit [OF assms, of L]
    by (auto simp: length_required_tracked split: if_splits)
next
  fix e assume "ComputeLayout d L = Inl e"
  then show "e = TooManyRequired (full_name (filter is_required (tracked d) ! 63))"
    using usage_limit [OF assms, of L] by (auto split: if_splits)
next
  fix e assume "ComputeLayout d L = Inl e"
  with assms show "filter is_required (tracked d) ! 63 \<in> set (field d)"
    by (rule usage_limit_field)
next
  fix e assume "field_names_qualified d" "ComputeLayout d L = Inl e"
  with assms show "\<exists>own. own \<noteq> [] \<and> e = TooManyRequired (msg_full_name d @ ''.'' @ own)"
    by (rule usage_limit_names_message)
next
  fix L' assume "ComputeLayout d L = Inr L'"
  with assms show "m_hasbit_count L' = int (length (filter (HasHasbit d) (field d)))"
    by (rule ComputeLayout_hasbit_count)
qed

text \<open>
  A message \<open>M\<close> of 64 optional fields is laid out, and its last field has index 64. The
  same message with the 64 fields required ends the run, and the name reported is \<open>M.f64\<close>.
\<close>

theorem usage_limit_failure_witness:
  "\<not> map_entry (uniform_message 64 CPPTYPE_INT32 LABEL_OPTIONAL)
   \<and> (\<exists>L'. new_MessageLayout some_indeterminate (uniform_message 64 CPPTYPE_INT32 LABEL_OPTIONAL) = Inr L'
          \<and> m_hasbit_count L' = 64)
   \<and> \<not> map_entry (uniform_message 64 CPPTYPE_INT32 LABEL_REQUIRED)
   \<and> field_names_qualified (uniform_message 64 CPPTYPE_INT32 LABEL_REQUIRED)
   \<and> msg_full_name (uniform_message 64 CPPTYPE_INT32 LABEL_REQUIRED) = ''M''
   \<and> new_MessageLayout some_indeterminate (uniform_message 64 CPPTYPE_INT32 LABEL_REQUIRED)
       = Inl (TooManyRequired (''M'' @ ''.'' @ ''f64''))"
proof -
  let ?d = "uniform_message 64 CPPTYPE_INT32 LABEL_OPTIONAL"
  let ?r = "uniform_message 64 CPPTYPE_INT32 LABEL_REQUIRED"
  have *: "filter (\<lambda>f. is_required f \<and> HasHasbit ?d f) (field ?d) = []"
    by (simp add: field_uniform filter_map comp_def is_required_def simple_field_def)
  have **: "filter (HasHasbit ?d) (field ?d) = field ?d"
    by (simp add: field_uniform filter_map comp_def HasHasbit_uniform)
  have "length (field ?d) = 64" by (simp add: field_uniform)
  with usage_limit_failure [OF not_map_entry_uniform, of 64 CPPTYPE_INT32 LABEL_OPTIONAL "fresh some_indeterminate"]
  have optional: "\<exists>L'. new_MessageLayout some_indeterminate ?d = Inr L' \<and> m_hasbit_count L' = 64"
    unfolding * ** new_MessageLayout_def
    by (cases "ComputeLayout ?d (fresh some_indeterminate)") (auto simp: not_map_entry_uniform)
  have len: "length (field ?r) = 64" by (simp add: field_uniform)
  have req: "is_required (simple_field CPPTYPE_INT32 LABEL_REQUIRED n)" for n
    by (simp add: is_required_def simple_field_def)
  have all: "filter (\<lambda>f. is_required f \<and> HasHasbit ?r f) (field ?r) = field ?r"
    by (simp add: field_uniform filter_map comp_def HasHasbit_uniform req)
  have "field ?r ! 63 = simple_field CPPTYPE_INT32 LABEL_REQUIRED 64"
    unfolding field_uniform by (subst nth_map) simp_all
  then have nm: "full_name (field ?r ! 63) = ''M.f64''"
    by (simp add: simple_field_def field_name_def digit_def)
  from usage_limit_failure [OF not_map_entry_uniform, of 64 CPPTYPE_INT32 LABEL_REQUIRED "fresh some_indeterminate"]
  have required: "new_MessageLayout some_indeterminate ?r = Inl (TooManyRequired ''M.f64'')"
    unfolding all required_tracked_uniform new_MessageLayout_def
    by (cases "ComputeLayout ?r (fresh some_indeterminate)") (auto simp: len nm)
  have "msg_full_name ?r = ''M''" by (simp add: uniform_message_def)
  with optional required show ?thesis
    by (simp add: not_map_entry_uniform field_names_qualified_uniform)
qed

section \<open>The rank of an enum field\<close>

lemma rank_bucket_cases:
  "label f = LABEL_REPEATED \<Longrightarrow> rank_bucket f = 6"
  "label f \<noteq> LABEL_REPEATED \<Longrightarrow>
   rank_bucket f =
     (case cpp_type f of
        CPPTYPE_INT64 \<Rightarrow> 1 | CPPTYPE_UINT64 \<Rightarrow> 1 | CPPTYPE_DOUBLE \<Rightarrow> 1 | CPPTYPE_ENUM \<Rightarrow> 1
      | CPPTYPE_FLOAT \<Rightarrow> 2 | CPPTYPE_INT32 \<Rightarrow> 2 | CPPTYPE_UINT32 \<Rightarrow> 2
      | CPPTYPE_BOOL \<Rightarrow> 3 | CPPTYPE_STRING \<Rightarrow> 4 | CPPTYPE_MESSAGE \<Rightarrow> 5)"
  by (simp_all add: rank_bucket_def split: CppType.splits)

text \<open>With a field number below \<open>2^29\<close> the rank is the bucket times \<open>2^29\<close> plus the number,
  so the sort by rank is by bucket first and by number within a bucket.\<close>

lemma rank_key_eq:
  assumes "containing_oneof f = None" "0 \<le> number f" "number f < 2 ^ 29"
  shows "rank_key f = rank_bucket f * 2 ^ 29 + number f"
proof -
  have n: "take_bit 29 (number f) = number f"
    using assms(2,3) by (simp add: take_bit_int_eq_self)
  have "push_bit 29 (rank_bucket f) AND take_bit 29 (number f) = 0"
    by (simp add: bit_eq_iff bit_simps)
  then have "push_bit 29 (rank_bucket f) + take_bit 29 (number f)
      = push_bit 29 (rank_bucket f) OR take_bit 29 (number f)"
    by (rule disjunctive_add_eq_or)
  then show ?thesis
    using assms(1) unfolding n by (simp add: rank_key_def FieldLayoutRank_def push_bit_eq_mult)
qed

lemma rank_key_less_iff:
  assumes "containing_oneof f = None" "0 \<le> number f" "number f < 2 ^ 29"
    and "containing_oneof g = None" "0 \<le> number g" "number g < 2 ^ 29"
  shows "rank_key f < rank_key g \<longleftrightarrow>
           rank_bucket f < rank_bucket g \<or> (rank_bucket f = rank_bucket g \<and> number f < number g)"
  unfolding rank_key_eq [OF assms(1-3)] rank_key_eq [OF assms(4-6)]
  using assms(2,3,5,6) by (cases "rank_bucket f" "rank_bucket g" rule: linorder_cases) auto

lemma field_order_sorted: "sorted (map rank_key (field_order d))"
  by (simp add: field_order_def)

text \<open>
  C2. \<open>FieldLayoutRank\<close> has six buckets, and the claim puts an enum field in bucket 2 with
  float, int32 and uint32. The \<^verbatim>\<open>switch\<close> names only those three: a singular enum field
  takes the \<^verbatim>\<open>default\<close> branch and gets bucket 1, that of the 8-byte scalars, although
  \<open>SizeOf\<close> gives it 4 bytes.
\<close>

theorem enum_ranked_with_64bit_scalars:
  "FieldLayoutRank enum_field = Inr (push_bit 29 1 OR 1)
   \<and> rank_bucket enum_field = 1
   \<and> SizeOf enum_field = mkSA 4 4 4 4"
  by (simp add: FieldLayoutRank_def rank_bucket_def SizeOf_def enum_field_def simple_field_def
      is_repeated_def)

section \<open>Map-entry messages\<close>

lemma Align_numerals [simp]:
  "Align 0 4 = 0" "Align 0 8 = 0" "Align 8 4 = 8" "Align 16 8 = 16" "Align 16 4 = 16"
  "Align 32 8 = 32" "Align 32 16 = 32" "Align 16 16 = 16"
  by (simp_all add: Align_def)

lemma IsPowerOfTwo_numerals [simp]:
  "IsPowerOfTwo 1" "IsPowerOfTwo 4" "IsPowerOfTwo 8" "IsPowerOfTwo 16"
  by (simp_all add: IsPowerOfTwo_def)

lemma place_map_entry_field_frame:
  "m_hasbit_indexes (place_map_entry_field d n L) = m_hasbit_indexes L"
  "m_oneof_case_offsets (place_map_entry_field d n L) = m_oneof_case_offsets L"
  "m_hasbit_count (place_map_entry_field d n L) = m_hasbit_count L"
  "m_hasbit_bytes (place_map_entry_field d n L) = m_hasbit_bytes L"
  "m_required_count (place_map_entry_field d n L) = m_required_count L"
  "m_size (place_map_entry_field d n L) = Add (AlignUp (m_size L) (mkSize 4 8)) (mkSize 8 16)"
  "m_maxalign (place_map_entry_field d n L) = MaxFrom (m_maxalign L) (mkSize 8 16)"
  "asserts_ok (place_map_entry_field d n L) = asserts_ok L"
  by (simp_all add: place_map_entry_field_def Place_def Let_def mkSA_def AlignUp_asserts_def
      mkSize_def split: option.splits)

lemma place_map_entry_field_offsets:
  "m_field_offsets (place_map_entry_field d n L) =
     (case FindFieldByNumber d n of
        None \<Rightarrow> m_field_offsets L
      | Some f \<Rightarrow> (m_field_offsets L)(f \<mapsto> AlignUp (m_size L) (mkSize 4 8)))"
  by (simp add: place_map_entry_field_def Place_def Let_def mkSA_def split: option.splits)

lemma map_entry_sizes:
  assumes "map_entry d" "ComputeLayout d L = Inr L'"
  shows "m_size L' = mkSize 16 32" "m_maxalign L' = mkSize 8 16"
  using assms
  by (auto simp: ComputeLayout_map_entry finish_simps place_map_entry_field_frame
      AlignUp_def Add_def MaxFrom_def mkSize_def)

lemma map_entry_offsets:
  assumes "map_entry d" "ComputeLayout d L = Inr L'"
    "FindFieldByNumber d 1 = Some k" "FindFieldByNumber d 2 = Some v"
  shows "m_field_offsets L' = (m_field_offsets L)(k \<mapsto> mkSize 0 0, v \<mapsto> mkSize 8 16)"
  using assms
  by (auto simp: ComputeLayout_map_entry finish_simps place_map_entry_field_frame
      place_map_entry_field_offsets AlignUp_def Add_def MaxFrom_def mkSize_def)

lemma map_entry_frame:
  assumes "map_entry d" "ComputeLayout d L = Inr L'"
  shows "m_hasbit_indexes L' = m_hasbit_indexes L"
    "m_oneof_case_offsets L' = m_oneof_case_offsets L"
    "m_hasbit_count L' = m_hasbit_count L"
    "m_hasbit_bytes L' = m_hasbit_bytes L"
    "m_required_count L' = m_required_count L"
  using assms
  by (auto simp: ComputeLayout_map_entry finish_simps place_map_entry_field_frame)

lemma map_entry_other_offsets:
  assumes "map_entry d" "ComputeLayout d L = Inr L'"
    "FindFieldByNumber d 1 \<noteq> Some f" "FindFieldByNumber d 2 \<noteq> Some f"
  shows "m_field_offsets L' f = m_field_offsets L f"
  using assms
  by (auto simp: ComputeLayout_map_entry finish_simps place_map_entry_field_offsets
      split: option.splits)

lemma map_entry_succeeds: "map_entry d \<Longrightarrow> \<exists>L'. ComputeLayout d L = Inr L'"
  by (simp add: ComputeLayout_map_entry)

lemma FindFieldByNumber_Some:
  "FindFieldByNumber d n = Some f \<Longrightarrow> f \<in> set (field d) \<and> number f = n"
  by (auto simp: FindFieldByNumber_def find_Some_iff)

text \<open>
  C7. In a map-entry message that has a field 1 (the key) and a field 2 (the value), the
  constructor places exactly these two fields: the key at offset {0,0} and the value at
  {8,16}, an {8,16} slot aligned to {4,8} each whatever their types, for a total size of
  {16,32}; no oneof gets a case offset and no field a presence-bit index.
\<close>

theorem map_entry_uniform_layout:
  assumes "map_entry d" "FindFieldByNumber d 1 = Some k" "FindFieldByNumber d 2 = Some v"
  shows "\<exists>L. new_MessageLayout u d = Inr L
           \<and> k \<in> set (field d) \<and> number k = 1 \<and> v \<in> set (field d) \<and> number v = 2
           \<and> m_field_offsets L = [k \<mapsto> mkSize 0 0, v \<mapsto> mkSize 8 16]
           \<and> GetFieldOffset L k = Inr (AlignUp (mkSize 0 0) (mkSize 4 8))
           \<and> GetFieldOffset L v = Inr (AlignUp (Add (mkSize 0 0) (mkSize 8 16)) (mkSize 4 8))
           \<and> message_size L = Add (mkSize 8 16) (mkSize 8 16)
           \<and> m_oneof_case_offsets L = Map.empty
           \<and> m_hasbit_indexes L = Map.empty"
proof -
  from map_entry_succeeds [OF assms(1)] obtain L where
    L: "ComputeLayout d (fresh u) = Inr L" ..
  have kv: "k \<noteq> v"
    using FindFieldByNumber_Some [OF assms(2)] FindFieldByNumber_Some [OF assms(3)] by auto
  have off: "m_field_offsets L = [k \<mapsto> mkSize 0 0, v \<mapsto> mkSize 8 16]"
    using map_entry_offsets [OF assms(1) L assms(2,3)] by (simp add: fresh_def)
  have "GetFieldOffset L k = Inr (mkSize 0 0)" "GetFieldOffset L v = Inr (mkSize 8 16)"
    using kv by (simp_all add: GetFieldOffset_def GetMapValue_def off)
  moreover have "AlignUp (mkSize 0 0) (mkSize 4 8) = mkSize 0 0"
    "AlignUp (Add (mkSize 0 0) (mkSize 8 16)) (mkSize 4 8) = mkSize 8 16"
    "Add (mkSize 8 16) (mkSize 8 16) = mkSize 16 32"
    by (simp_all add: AlignUp_def Add_def mkSize_def)
  ultimately show ?thesis
    using L off map_entry_frame(1,2) [OF assms(1) L] map_entry_sizes(1) [OF assms(1) L]
      FindFieldByNumber_Some [OF assms(2)] FindFieldByNumber_Some [OF assms(3)]
    by (simp add: new_MessageLayout_def message_size_def fresh_def)
qed

theorem map_entry_uniform_layout_witness:
  "map_entry entry_message
   \<and> FindFieldByNumber entry_message 1 = Some entry_key
   \<and> FindFieldByNumber entry_message 2 = Some entry_value
   \<and> cpp_type entry_key = CPPTYPE_INT32 \<and> cpp_type entry_value = CPPTYPE_MESSAGE
   \<and> (\<exists>L. new_MessageLayout some_indeterminate entry_message = Inr L
          \<and> m_field_offsets L = [entry_key \<mapsto> mkSize 0 0, entry_value \<mapsto> mkSize 8 16]
          \<and> message_size L = mkSize 16 32
          \<and> m_hasbit_indexes L = Map.empty)"
proof -
  have 1: "map_entry entry_message" by (simp add: entry_message_def)
  have 2: "FindFieldByNumber entry_message 1 = Some entry_key"
    by (simp add: FindFieldByNumber_def entry_message_def entry_key_def)
  have 3: "FindFieldByNumber entry_message 2 = Some entry_value"
    by (simp add: FindFieldByNumber_def entry_message_def entry_key_def entry_value_def)
  have 4: "Add (mkSize 8 16) (mkSize 8 16) = mkSize 16 32"
    by (simp add: Add_def mkSize_def)
  from map_entry_uniform_layout [OF 1 2 3, of some_indeterminate] show ?thesis
    using 1 2 3 by (auto simp: 4 entry_key_def entry_value_def)
qed

text \<open>
  C10. On a map-entry message \<open>ComputeLayout\<close> always returns, and it leaves
  \<^verbatim>\<open>hasbit_count_\<close>, \<^verbatim>\<open>hasbit_bytes_\<close> and \<^verbatim>\<open>required_count_\<close> as they were, together with
  the presence-bit indices, the oneof case offsets and the offset of every field other
  than fields 1 and 2. The constructor gives these three members no value of their own, so
  the queries \<open>hasbit_count\<close>, \<open>hasbit_bytes\<close> and \<open>required_count\<close> return whatever the
  members held before, which need not be 0.
\<close>

theorem map_entry_leaves_counts_unassigned:
  assumes "map_entry d"
  shows "(\<exists>L'. ComputeLayout d L = Inr L'
            \<and> m_hasbit_count L' = m_hasbit_count L
            \<and> m_hasbit_bytes L' = m_hasbit_bytes L
            \<and> m_required_count L' = m_required_count L
            \<and> m_hasbit_indexes L' = m_hasbit_indexes L
            \<and> m_oneof_case_offsets L' = m_oneof_case_offsets L
            \<and> (\<forall>f. FindFieldByNumber d 1 \<noteq> Some f \<and> FindFieldByNumber d 2 \<noteq> Some f
                  \<longrightarrow> m_field_offsets L' f = m_field_offsets L f))
       \<and> (\<exists>L'. new_MessageLayout u d = Inr L'
            \<and> hasbit_count L' = ind_hasbit_count u
            \<and> hasbit_bytes L' = ind_hasbit_bytes u
            \<and> required_count L' = ind_required_count u)"
proof -
  from map_entry_succeeds [OF assms] obtain L' where L': "ComputeLayout d L = Inr L'" ..
  from map_entry_succeeds [OF assms] obtain N where N: "ComputeLayout d (fresh u) = Inr N" ..
  have "\<forall>f. FindFieldByNumber d 1 \<noteq> Some f \<and> FindFieldByNumber d 2 \<noteq> Some f
          \<longrightarrow> m_field_offsets L' f = m_field_offsets L f"
    using map_entry_other_offsets [OF assms L'] by blast
  then show ?thesis
    using L' N map_entry_frame [OF assms L'] map_entry_frame [OF assms N]
    by (simp add: new_MessageLayout_def hasbit_count_def hasbit_bytes_def required_count_def
        fresh_def)
qed

theorem map_entry_leaves_counts_unassigned_witness:
  "map_entry entry_message
   \<and> (\<exists>L'. new_MessageLayout some_indeterminate entry_message = Inr L'
          \<and> hasbit_count L' = 13 \<and> hasbit_bytes L' = 17 \<and> required_count L' = 19)"
proof -
  have 1: "map_entry entry_message" by (simp add: entry_message_def)
  from map_entry_leaves_counts_unassigned [OF 1, of "fresh some_indeterminate" some_indeterminate]
  show ?thesis using 1 by (auto simp: some_indeterminate_def)
qed

section \<open>Assertions and the running maximum\<close>

lemma AlignUp_asserts_good: "good_align a \<Longrightarrow> AlignUp_asserts a"
  by (auto simp: good_align_def AlignUp_asserts_def)

lemma place_fields_asserts: "asserts_ok (place_fields fs L) = asserts_ok L"
  by (induction fs arbitrary: L)
     (simp_all add: Place_def Let_def AlignUp_asserts_good [OF SizeOf_good_align])

lemma place_fields_maxalign_same:
  "\<forall>f\<in>set fs. Size_le (sa_size (SizeOf f)) (m_maxalign L) \<Longrightarrow>
   m_maxalign (place_fields fs L) = m_maxalign L"
proof (induction fs arbitrary: L)
  case Nil
  show ?case by simp
next
  case (Cons f fs)
  let ?L1 = "(snd (Place (SizeOf f) L))\<lparr>m_field_offsets :=
      (m_field_offsets (snd (Place (SizeOf f) L)))(f \<mapsto> AlignUp (m_size L) (sa_align (SizeOf f)))\<rparr>"
  have step: "place_fields (f # fs) L = place_fields fs ?L1"
    by (simp add: Place_def Let_def)
  have "MaxFrom (m_maxalign L) (sa_size (SizeOf f)) = m_maxalign L"
    using Cons.prems by (simp add: MaxFrom_def Size_le_def mkSize_def max_def)
  then have same: "m_maxalign ?L1 = m_maxalign L"
    by (simp add: snd_Place)
  have "m_maxalign (place_fields fs ?L1) = m_maxalign ?L1"
  proof (rule Cons.IH)
    show "\<forall>g\<in>set fs. Size_le (sa_size (SizeOf g)) (m_maxalign ?L1)"
      unfolding same using Cons.prems by simp
  qed
  then show ?case unfolding step same .
qed

text \<open>Fields of four bytes aligned to four under both widths.\<close>

lemma place_fields_size_4:
  assumes "\<forall>f\<in>set fs. SizeOf f = mkSA 4 4 4 4" "fs \<noteq> []"
  shows "m_size (place_fields fs L) =
           Add (AlignUp (m_size L) (mkSize 4 4)) (mkSize (4 * int (length fs)) (4 * int (length fs)))"
  using assms
proof (induction fs arbitrary: L)
  case Nil
  then show ?case by simp
next
  case (Cons f fs)
  let ?L1 = "(snd (Place (SizeOf f) L))\<lparr>m_field_offsets :=
      (m_field_offsets (snd (Place (SizeOf f) L)))(f \<mapsto> AlignUp (m_size L) (sa_align (SizeOf f)))\<rparr>"
  have step: "place_fields (f # fs) L = place_fields fs ?L1"
    by (simp add: Place_def Let_def)
  have f: "SizeOf f = mkSA 4 4 4 4" using Cons.prems by simp
  have sz1: "m_size ?L1 = Add (AlignUp (m_size L) (mkSize 4 4)) (mkSize 4 4)"
    by (simp add: snd_Place f mkSA_def)
  show ?case
  proof (cases "fs = []")
    case True
    then show ?thesis unfolding step by (simp add: sz1)
  next
    case False
    have al: "Align (Align v 4 + 4) 4 = Align v 4 + 4" for v
      using Align_pow2_id [of 2 "Align v 4 + 4"] Align_pow2_dvd [of 2 v] by simp
    have "AlignUp (m_size ?L1) (mkSize 4 4) = m_size ?L1"
      unfolding sz1 by (simp add: AlignUp_def Add_def mkSize_def al)
    moreover have "m_size (place_fields fs ?L1) =
        Add (AlignUp (m_size ?L1) (mkSize 4 4)) (mkSize (4 * int (length fs)) (4 * int (length fs)))"
      using Cons.prems False by (intro Cons.IH) simp_all
    ultimately show ?thesis
      unfolding step by (simp add: sz1 Add_def mkSize_def)
  qed
qed

subsection \<open>A message with 65 optional int32 fields\<close>

lemma non_oneof_fields_uniform:
  "non_oneof_fields (uniform_message k t l) = field (uniform_message k t l)"
  by (simp add: non_oneof_fields_def field_uniform filter_map comp_def simple_field_def)

lemma field_order_uniform:
  "set (field_order (uniform_message k t l)) = set (field (uniform_message k t l))"
  "length (field_order (uniform_message k t l)) = k"
  by (simp_all add: field_order_def non_oneof_fields_uniform) (simp add: field_uniform)

lemma uniform_message_valid:
  assumes "int k < 2 ^ 29"
  shows "valid_descriptor (uniform_message k t l)"
proof -
  have "map number (field (uniform_message k t l)) = map int [1..<Suc k]"
    by (simp add: field_uniform simple_field_def comp_def del: upt_Suc)
  moreover have "distinct (map int [1..<Suc k])"
    by (simp add: distinct_map del: upt_Suc)
  ultimately have "distinct (map number (field (uniform_message k t l)))" by simp
  moreover have "list_all (\<lambda>f. 1 \<le> number f \<and> number f < 2 ^ 29) (field (uniform_message k t l))"
    using assms by (auto simp: field_uniform list_all_iff simple_field_def simp del: upt_Suc)
  moreover have "list_all (\<lambda>f. case containing_oneof f of None \<Rightarrow> True
      | Some oneof \<Rightarrow> oneof \<in> set (oneof_decl (uniform_message k t l))) (field (uniform_message k t l))"
    by (auto simp: field_uniform list_all_iff simple_field_def simp del: upt_Suc)
  ultimately show ?thesis
    by (simp add: valid_descriptor_def) (simp add: uniform_message_def)
qed

lemma SizeOf_int32_optional: "SizeOf (simple_field CPPTYPE_INT32 LABEL_OPTIONAL n) = mkSA 4 4 4 4"
  by (simp add: SizeOf_def simple_field_def is_repeated_def)

lemma layout_65_optional:
  "\<exists>L. ComputeLayout (uniform_message 65 CPPTYPE_INT32 LABEL_OPTIONAL) L0 = Inr L
       \<and> m_hasbit_count L = 65 \<and> m_hasbit_bytes L = 9
       \<and> m_maxalign L = mkSize 9 9 \<and> m_size L = mkSize 272 272
       \<and> asserts_ok L = (asserts_ok L0 \<and> AlignUp_asserts (mkSize 9 9))"
proof -
  let ?d = "uniform_message 65 CPPTYPE_INT32 LABEL_OPTIONAL"
  have ne: "\<not> map_entry ?d" by (rule not_map_entry_uniform)
  from usage_limit [OF ne, of L0] obtain L where L: "ComputeLayout ?d L0 = Inr L"
    by (auto simp: optional_tracked_uniform)
  from ComputeLayout_ordinary_Inr [OF ne L] obtain L1 where
    L1: "place_hasbits ?d (FieldHotnessOrder ?d) (start L0) = Inr L1"
    and Leq: "L = finish (place_oneofs ?d (oneof_order ?d) (place_fields (field_order ?d) (hasbits_placed L1)))"
    by blast
  have oo: "oneof_order ?d = []" by (simp add: oneof_order_def uniform_message_def)
  have "length (field ?d) = 65" by (simp add: field_uniform)
  then have cnt: "m_hasbit_count L1 = 65"
    using place_hasbits_count(1) [OF L1] tracked_uniform [of LABEL_OPTIONAL 65 CPPTYPE_INT32]
    by (simp add: start_def tracked_def)
  have fr: "m_size L1 = mkSize 0 0" "m_maxalign L1 = mkSize 8 8" "asserts_ok L1 = asserts_ok L0"
    using place_hasbits_frame [OF L1] by (simp_all add: start_def)
  have bytes: "DivRoundUp 65 8 = 9" by (simp add: DivRoundUp_def)
  let ?H = "hasbits_placed L1"
  have H: "m_size ?H = mkSize 9 9" "m_maxalign ?H = mkSize 9 9" "m_hasbit_bytes ?H = 9"
    "m_hasbit_count ?H = 65" "asserts_ok ?H = asserts_ok L0"
    using hasbits_placed_size [OF fr(1)]
    by (simp_all add: hasbits_placed_simps bytes fr MaxFrom_def mkSize_def cnt)
       (simp add: hasbits_placed_def snd_Place fr AlignUp_asserts_def DivRoundUp_asserts_def cnt mkSize_def)
  let ?F = "place_fields (field_order ?d) ?H"
  have all4: "\<forall>f\<in>set (field_order ?d). SizeOf f = mkSA 4 4 4 4"
    by (auto simp: field_order_uniform field_uniform SizeOf_int32_optional)
  have nonempty: "field_order ?d \<noteq> []"
    using field_order_uniform(2) [of 65 CPPTYPE_INT32 LABEL_OPTIONAL] by auto
  have "Align 9 4 = 12" by (simp add: Align_def)
  then have Fsize: "m_size ?F = mkSize 272 272"
    using place_fields_size_4 [OF all4 nonempty, of ?H]
    by (simp add: H field_order_uniform AlignUp_def Add_def mkSize_def)
  have Fmax: "m_maxalign ?F = mkSize 9 9"
    using place_fields_maxalign_same [of "field_order ?d" ?H] all4
    by (simp add: H Size_le_def mkSA_def mkSize_def)
  have "Align 272 9 = 272" by (simp add: Align_def)
  then have "m_size L = mkSize 272 272" "m_maxalign L = mkSize 9 9"
    "asserts_ok L = (asserts_ok L0 \<and> AlignUp_asserts (mkSize 9 9))"
    "m_hasbit_count L = 65" "m_hasbit_bytes L = 9"
    by (simp_all add: Leq oo finish_simps Fsize Fmax AlignUp_def mkSize_def place_fields_frame H)
       (simp add: finish_def Fmax place_fields_asserts H mkSize_def)
  with L show ?thesis by simp
qed

text \<open>
  C9. The claim: every alignment passed to \<open>Align\<close> is a power of two, so its assertion
  never fires. With 65 optional int32 fields the presence bits take 9 bytes, \<open>Place\<close> takes
  the running maximum from that size, and the final \<open>AlignUp\<close> is called with the alignment
  {9,9}: \<open>IsPowerOfTwo 9\<close> is false and the assertion fails.
\<close>

theorem final_alignment_not_power_of_two:
  "valid_descriptor (uniform_message 65 CPPTYPE_INT32 LABEL_OPTIONAL)
   \<and> (\<exists>L. new_MessageLayout u (uniform_message 65 CPPTYPE_INT32 LABEL_OPTIONAL) = Inr L
       \<and> hasbit_bytes L = 9
       \<and> m_maxalign L = mkSize 9 9
       \<and> \<not> IsPowerOfTwo 9
       \<and> \<not> asserts_ok L)"
proof -
  have "\<not> IsPowerOfTwo 9" by (simp add: IsPowerOfTwo_def)
  moreover have "valid_descriptor (uniform_message 65 CPPTYPE_INT32 LABEL_OPTIONAL)"
    by (rule uniform_message_valid) simp
  ultimately show ?thesis
    using layout_65_optional [of "fresh u"]
    by (auto simp: new_MessageLayout_def hasbit_bytes_def AlignUp_asserts_def mkSize_def)
qed

text \<open>
  C3. The claim: the final total size is a multiple of the running maximum alignment. For
  the same message the running maximum is {9,9} and the total size is {272,272}:
  \<open>Align 272 9\<close> is \<open>280 AND NOT 8 = 272\<close>, and 9 does not divide 272.
\<close>

theorem total_size_not_multiple_of_maxalign:
  "\<exists>L. new_MessageLayout u (uniform_message 65 CPPTYPE_INT32 LABEL_OPTIONAL) = Inr L
       \<and> m_maxalign L = mkSize 9 9
       \<and> message_size L = mkSize 272 272
       \<and> \<not> size32 (m_maxalign L) dvd size32 (message_size L)
       \<and> \<not> size64 (m_maxalign L) dvd size64 (message_size L)"
proof -
  have "\<not> (9::int) dvd 272" by presburger
  then show ?thesis
    using layout_65_optional [of "fresh u"]
    by (auto simp: new_MessageLayout_def message_size_def mkSize_def)
qed

section \<open>The layout of an ordinary message\<close>

lemma valid_descriptorD:
  assumes "valid_descriptor d"
  shows "distinct (field d)"
    and "distinct (oneof_decl d)"
    and "\<forall>oneof\<in>set (oneof_decl d). oneof_field d oneof \<noteq> []"
    and "\<forall>f\<in>set (field d). 1 \<le> number f \<and> number f < 2 ^ 29"
    and "inj_on number (set (field d))"
    and "inj_on oneof_full_name (set (oneof_decl d))"
    and "\<forall>f\<in>set (field d). \<forall>oneof. containing_oneof f = Some oneof \<longrightarrow> oneof \<in> set (oneof_decl d)"
  using assms
  by (auto simp: valid_descriptor_def list_all_iff distinct_map split: option.splits)

lemma field_order_props:
  "set (field_order d) = set (non_oneof_fields d)"
  "distinct (field_order d) = distinct (non_oneof_fields d)"
  "length (field_order d) = length (non_oneof_fields d)"
  by (simp_all add: field_order_def)

lemma oneof_order_props:
  "set (oneof_order d) = set (oneof_decl d)"
  "distinct (oneof_order d) = distinct (oneof_decl d)"
  "length (oneof_order d) = length (oneof_decl d)"
  by (simp_all add: oneof_order_def)

lemma non_oneof_not_member:
  "f \<in> set (non_oneof_fields d) \<Longrightarrow> f \<notin> set (oneof_field d oneof)"
  by (auto simp: non_oneof_fields_def oneof_field_def)

lemma distinct_non_oneof_fields: "distinct (field d) \<Longrightarrow> distinct (non_oneof_fields d)"
  by (simp add: non_oneof_fields_def)

text \<open>A completed run on an ordinary message is the presence-bit loop followed by
  \<open>after_hasbits\<close>.\<close>

lemma ordinary_run:
  assumes "\<not> map_entry d" "ComputeLayout d L0 = Inr L"
  obtains M where
    "place_hasbits d (FieldHotnessOrder d) (start L0) = Inr M"
    "L = after_hasbits d M"
    "m_size M = mkSize 0 0"
    "m_field_offsets M = m_field_offsets L0"
    "m_oneof_case_offsets M = m_oneof_case_offsets L0"
proof -
  from ComputeLayout_ordinary_Inr [OF assms] obtain M where
    M: "place_hasbits d (FieldHotnessOrder d) (start L0) = Inr M"
    and L: "L = finish (place_oneofs d (oneof_order d) (place_fields (field_order d) (hasbits_placed M)))"
    by blast
  show thesis
    using that [OF M] L place_hasbits_frame [OF M]
    by (simp add: after_hasbits_def fields_placed_def start_def)
qed

lemma after_hasbits_simps:
  "m_hasbit_bytes (after_hasbits d M) = DivRoundUp (m_hasbit_count M) 8"
  "m_hasbit_count (after_hasbits d M) = m_hasbit_count M"
  "m_required_count (after_hasbits d M) = m_required_count M"
  "m_hasbit_indexes (after_hasbits d M) = m_hasbit_indexes M"
  "m_field_offsets (after_hasbits d M) = m_field_offsets (place_oneofs d (oneof_order d) (fields_placed d M))"
  "m_oneof_case_offsets (after_hasbits d M) = m_oneof_case_offsets (place_oneofs d (oneof_order d) (fields_placed d M))"
  by (simp_all add: after_hasbits_def fields_placed_def finish_simps place_oneofs_frame
      place_fields_frame hasbits_placed_simps)

lemma fields_placed_size_ge:
  assumes "m_size M = mkSize 0 0"
  shows "Size_le (mkSize (m_hasbit_bytes (after_hasbits d M)) (m_hasbit_bytes (after_hasbits d M)))
           (m_size (fields_placed d M))"
  using place_fields_size_mono [of "hasbits_placed M" "field_order d"]
  by (simp add: fields_placed_def hasbits_placed_size [OF assms] after_hasbits_simps)

text \<open>Non-oneof fields keep the offset that \<open>place_fields\<close> gave them.\<close>

lemma non_oneof_offset_kept:
  assumes "f \<in> set (non_oneof_fields d)"
  shows "m_field_offsets (after_hasbits d M) f = m_field_offsets (fields_placed d M) f"
  using non_oneof_not_member [OF assms]
  by (simp add: after_hasbits_simps place_oneofs_other_field)

lemma non_oneof_field_placed:
  assumes "distinct (field d)" "m_size M = mkSize 0 0" "f \<in> set (non_oneof_fields d)"
  obtains off where
    "m_field_offsets (after_hasbits d M) f = Some off"
    "Size_le (mkSize (m_hasbit_bytes (after_hasbits d M)) (m_hasbit_bytes (after_hasbits d M))) off"
    "Size_le (Add off (sa_size (SizeOf f))) (m_size (fields_placed d M))"
proof -
  have "distinct (field_order d)" "f \<in> set (field_order d)"
    using assms(1,3) by (simp_all add: field_order_props distinct_non_oneof_fields)
  from place_fields_offset [OF this, of "hasbits_placed M"] obtain off where
    off: "m_field_offsets (fields_placed d M) f = Some off"
      "Size_le (m_size (hasbits_placed M)) off"
      "Size_le (Add off (sa_size (SizeOf f))) (m_size (fields_placed d M))"
    unfolding fields_placed_def by blast
  show thesis
    using that [OF _ _ off(3)] off(1,2) non_oneof_offset_kept [OF assms(3)]
    by (simp add: hasbits_placed_size [OF assms(2)] after_hasbits_simps)
qed


text \<open>A oneof: the state \<open>L'\<close> in which its data slot is placed comes after all fields.\<close>

lemma oneof_placed_final:
  assumes "valid_descriptor d" "oneof \<in> set (oneof_decl d)"
  obtains L' where
    "oneof_placed d oneof L' (after_hasbits d M)"
    "Size_le (m_size (fields_placed d M)) (m_size L')"
proof -
  have "distinct (oneof_order d)" "oneof \<in> set (oneof_order d)"
    "\<forall>x\<in>set (oneof_order d). oneof_field d x \<noteq> []"
    using valid_descriptorD(2,3) [OF assms(1)] assms(2) by (simp_all add: oneof_order_props)
  from place_oneofs_offset [OF this, of "fields_placed d M"] obtain L' where
    L': "Size_le (m_size (fields_placed d M)) (m_size L')"
      "oneof_placed d oneof L' (place_oneofs d (oneof_order d) (fields_placed d M))"
    by blast
  have "oneof_placed d oneof L' (after_hasbits d M)"
    using L'(2) by (simp add: oneof_placed_def after_hasbits_simps)
  then show thesis using L'(1) by (rule that)
qed


text \<open>A key that is neither a non-oneof field nor a member of a oneof has no offset.\<close>

lemma unplaced_field_offset:
  assumes "f \<notin> set (non_oneof_fields d)" "\<forall>oneof\<in>set (oneof_decl d). f \<notin> set (oneof_field d oneof)"
  shows "m_field_offsets (after_hasbits d M) f = m_field_offsets M f"
  using assms
  by (simp add: after_hasbits_simps place_oneofs_other_field oneof_order_props fields_placed_def
      place_fields_other field_order_props hasbits_placed_simps)

lemma undeclared_oneof_offset:
  assumes "oneof \<notin> set (oneof_decl d)"
  shows "m_oneof_case_offsets (after_hasbits d M) oneof = m_oneof_case_offsets M oneof"
  using assms
  by (simp add: after_hasbits_simps place_oneofs_other_case oneof_order_props fields_placed_def
      place_fields_frame hasbits_placed_simps)

section \<open>Presence bits\<close>

lemma hot_props:
  "sorted (map (\<lambda>f. (\<not> is_required f, number f)) (FieldHotnessOrder d))"
  "mset (FieldHotnessOrder d) = mset (field d)"
  "set (FieldHotnessOrder d) = set (field d)"
  "distinct (FieldHotnessOrder d) = distinct (field d)"
  by (simp_all add: FieldHotnessOrder_def)

lemma tracked_required_prefix:
  assumes "i < length (tracked d)"
  shows "is_required (tracked d ! i) \<longleftrightarrow> i < length (filter is_required (tracked d))"
proof -
  let ?rs = "filter is_required (tracked d)"
  let ?ns = "filter (\<lambda>f. \<not> is_required f) (tracked d)"
  have split: "tracked d = ?rs @ ?ns" by (rule tracked_split)
  show ?thesis
  proof (cases "i < length ?rs")
    case True
    then have "tracked d ! i = ?rs ! i"
      by (subst split) (simp add: nth_append)
    moreover have "?rs ! i \<in> set ?rs" using True by (rule nth_mem)
    ultimately show ?thesis using True by simp
  next
    case False
    then have "tracked d ! i = ?ns ! (i - length ?rs)"
      by (subst split) (simp add: nth_append)
    moreover have "i - length ?rs < length ?ns"
      using assms False by (subst (asm) split) simp
    then have "?ns ! (i - length ?rs) \<in> set ?ns" by (rule nth_mem)
    ultimately show ?thesis using False by simp
  qed
qed

lemma hasbit_indexes_final:
  assumes "\<not> map_entry d" "distinct (field d)" "new_MessageLayout u d = Inr L"
  shows "\<forall>i<length (tracked d). m_hasbit_indexes L (tracked d ! i) = Some (int i + 1)"
    and "\<forall>f. f \<notin> set (tracked d) \<longrightarrow> m_hasbit_indexes L f = None"
    and "m_hasbit_count L = int (length (tracked d))"
    and "m_required_count L = int (length (filter is_required (tracked d)))"
    and "m_hasbit_bytes L = (m_hasbit_count L + 7) div 8"
proof -
  from assms(3) have run: "ComputeLayout d (fresh u) = Inr L"
    by (simp add: new_MessageLayout_def)
  from ordinary_run [OF assms(1) run] obtain L1 where
    L1: "place_hasbits d (FieldHotnessOrder d) (start (fresh u)) = Inr L1"
    and L: "L = after_hasbits d L1" by metis
  have dist: "distinct (FieldHotnessOrder d)" using assms(2) by (simp add: hot_props)
  have start: "m_hasbit_count (start (fresh u)) = 0" "m_required_count (start (fresh u)) = 0"
    "m_hasbit_indexes (start (fresh u)) = Map.empty"
    by (simp_all add: start_def fresh_def)
  show "\<forall>i<length (tracked d). m_hasbit_indexes L (tracked d ! i) = Some (int i + 1)"
    using place_hasbits_index [OF L1 dist]
    by (simp add: L after_hasbits_simps tracked_def start)
  show "\<forall>f. f \<notin> set (tracked d) \<longrightarrow> m_hasbit_indexes L f = None"
    using place_hasbits_other [OF L1]
    by (simp add: L after_hasbits_simps tracked_def start)
  show "m_hasbit_count L = int (length (tracked d))"
    using place_hasbits_count(1) [OF L1]
    by (simp add: L after_hasbits_simps tracked_def start)
  have "filter (\<lambda>f. HasHasbit d f \<and> is_required f) (FieldHotnessOrder d) = filter is_required (tracked d)"
    by (simp add: tracked_def conj_commute)
  then show "m_required_count L = int (length (filter is_required (tracked d)))"
    using place_hasbits_count(2) [OF L1]
    by (simp add: L after_hasbits_simps start)
  show "m_hasbit_bytes L = (m_hasbit_count L + 7) div 8"
    by (simp add: L after_hasbits_simps DivRoundUp_def)
qed

lemma every_offset_after_hasbits:
  assumes "\<not> map_entry d" "valid_descriptor d" "new_MessageLayout u d = Inr L"
    "m_field_offsets L f = Some off"
  shows "Size_le (mkSize (m_hasbit_bytes L) (m_hasbit_bytes L)) off"
proof -
  from assms(3) have run: "ComputeLayout d (fresh u) = Inr L"
    by (simp add: new_MessageLayout_def)
  from ordinary_run [OF assms(1) run] obtain L1 where
    L: "L = after_hasbits d L1" and sz: "m_size L1 = mkSize 0 0"
    and fo: "m_field_offsets L1 = m_field_offsets (fresh u)" by metis
  consider (field) "f \<in> set (non_oneof_fields d)"
    | (member) oneof where "oneof \<in> set (oneof_decl d)" "f \<in> set (oneof_field d oneof)"
    | (neither) "f \<notin> set (non_oneof_fields d)" "\<forall>oneof\<in>set (oneof_decl d). f \<notin> set (oneof_field d oneof)"
    by blast
  then show ?thesis
  proof cases
    case field
    from non_oneof_field_placed [OF valid_descriptorD(1) [OF assms(2)] sz field]
    show ?thesis using assms(4) by (auto simp: L)
  next
    case member
    from oneof_placed_final [OF assms(2) member(1), where M = L1] obtain L' where
      L': "oneof_placed d oneof L' (after_hasbits d L1)"
        "Size_le (m_size (fields_placed d L1)) (m_size L')" by blast
    have "off = oneof_data d oneof L'"
      using L'(1) member(2) assms(4) by (auto simp: oneof_placed_def L)
    moreover have "Size_le (m_size L') (oneof_data d oneof L')"
      using valid_descriptorD(3) [OF assms(2)] member(1) by (simp add: place_oneof_data_ge)
    ultimately show ?thesis
      using Size_le_trans [OF Size_le_trans [OF fields_placed_size_ge [OF sz, of d] L'(2)]]
      by (simp add: L)
  next
    case neither
    from unplaced_field_offset [OF neither, where M = L1] show ?thesis
      using assms(4) by (simp add: L fo fresh_def)
  qed
qed

text \<open>
  C6. In an ordinary message (a validated one, so that its fields are distinct) the
  hotness order is the field list sorted by (not required, number). The presence-tracked
  fields, taken in that order (the list \<open>tracked d\<close>), get the indices 1, 2, 3, ... with
  none left out; a field that is not tracked gets no index (the query aborts on it), and 0
  is never given. The required fields come first: a
  tracked field is required exactly when its index is at most the required count. The
  presence-bit region takes \<open>ceil(count/8)\<close> bytes and lies before every field: every offset
  in the layout is at least the region's size, under both widths.
\<close>

theorem presence_bit_indexes:
  assumes "\<not> map_entry d" "valid_descriptor d" "new_MessageLayout u d = Inr L"
  shows "sorted (map (\<lambda>f. (\<not> is_required f, number f)) (FieldHotnessOrder d))
       \<and> mset (FieldHotnessOrder d) = mset (field d)
       \<and> (\<forall>i<length (tracked d). GetHasbitIndex L (tracked d ! i) = Inr (int i + 1))
       \<and> (\<forall>f. f \<notin> set (tracked d) \<longrightarrow>
            m_hasbit_indexes L f = None \<and> GetHasbitIndex L f = Inl (Abort ''No value for field.''))
       \<and> hasbit_count L = int (length (tracked d))
       \<and> (\<forall>i<length (tracked d). is_required (tracked d ! i) \<longleftrightarrow> int i + 1 \<le> required_count L)
       \<and> 8 * (hasbit_bytes L - 1) < hasbit_count L \<and> hasbit_count L \<le> 8 * hasbit_bytes L
       \<and> fst (hasbit_region L) = mkSize 0 0
       \<and> snd (hasbit_region L) = mkSize (hasbit_bytes L) (hasbit_bytes L)
       \<and> (\<forall>f off. m_field_offsets L f = Some off \<longrightarrow> Size_le (snd (hasbit_region L)) off)"
proof -
  note ix = hasbit_indexes_final [OF assms(1) valid_descriptorD(1) [OF assms(2)] assms(3)]
  have "\<forall>i<length (tracked d). GetHasbitIndex L (tracked d ! i) = Inr (int i + 1)"
    using ix(1) by (simp add: GetHasbitIndex_def GetMapValue_def)
  moreover have "\<forall>i<length (tracked d). is_required (tracked d ! i) \<longleftrightarrow> int i + 1 \<le> required_count L"
    using tracked_required_prefix [of _ d] by (auto simp: required_count_def ix(4))
  moreover have "8 * (hasbit_bytes L - 1) < hasbit_count L" "hasbit_count L \<le> 8 * hasbit_bytes L"
    unfolding hasbit_bytes_def hasbit_count_def ix(5) by presburger+
  moreover have "\<forall>f off. m_field_offsets L f = Some off \<longrightarrow> Size_le (snd (hasbit_region L)) off"
    using every_offset_after_hasbits [OF assms] by (simp add: hasbit_region_def)
  moreover have "\<forall>f. f \<notin> set (tracked d) \<longrightarrow>
      m_hasbit_indexes L f = None \<and> GetHasbitIndex L f = Inl (Abort ''No value for field.'')"
    using ix(2) by (simp add: GetHasbitIndex_def GetMapValue_def)
  ultimately show ?thesis
    using ix(3) by (simp add: hot_props hasbit_count_def hasbit_region_def hasbit_bytes_def)
qed


lemma mixed_message_valid: "valid_descriptor mixed_message" "\<not> map_entry mixed_message"
  by code_simp+

lemma mixed_message_tracked:
  "tracked mixed_message =
     [simple_field CPPTYPE_INT32 LABEL_REQUIRED 1, simple_field CPPTYPE_STRING LABEL_OPTIONAL 2]"
  by code_simp

lemma mixed_message_succeeds: "\<exists>L. new_MessageLayout u mixed_message = Inr L"
  using usage_limit [OF mixed_message_valid(2), of "fresh u"]
  by (simp add: mixed_message_tracked new_MessageLayout_def split: if_splits)

theorem presence_bit_indexes_witness:
  "\<not> map_entry mixed_message \<and> valid_descriptor mixed_message
   \<and> (\<exists>L. new_MessageLayout some_indeterminate mixed_message = Inr L
          \<and> GetHasbitIndex L (simple_field CPPTYPE_INT32 LABEL_REQUIRED 1) = Inr 1
          \<and> GetHasbitIndex L (simple_field CPPTYPE_STRING LABEL_OPTIONAL 2) = Inr 2
          \<and> hasbit_count L = 2 \<and> hasbit_bytes L = 1)"
proof -
  from mixed_message_succeeds obtain L where
    L: "new_MessageLayout some_indeterminate mixed_message = Inr L" ..
  note * = presence_bit_indexes [OF mixed_message_valid(2,1) L, unfolded mixed_message_tracked]
  from * have "\<forall>i<2. GetHasbitIndex L ([simple_field CPPTYPE_INT32 LABEL_REQUIRED 1,
      simple_field CPPTYPE_STRING LABEL_OPTIONAL 2] ! i) = Inr (int i + 1)" by simp
  then have "GetHasbitIndex L (simple_field CPPTYPE_INT32 LABEL_REQUIRED 1) = Inr 1"
    "GetHasbitIndex L (simple_field CPPTYPE_STRING LABEL_OPTIONAL 2) = Inr 2"
    by (auto simp: numeral_2_eq_2 less_Suc_eq)
  moreover from * have "hasbit_count L = 2" "hasbit_bytes L = 1" by auto
  ultimately show ?thesis
    using L mixed_message_valid by blast
qed

section \<open>Non-overlap\<close>


lemma oneof_region_placed:
  assumes "oneof_placed d oneof L' L" "oneof_field d oneof \<noteq> []"
  shows "oneof_region d L oneof = Some (oneof_data d oneof L', m_size (place_oneof d oneof L'))"
proof -
  from assms(2) obtain f fs where fs: "oneof_field d oneof = f # fs"
    by (cases "oneof_field d oneof") auto
  with assms(1) have "m_field_offsets L f = Some (oneof_data d oneof L')"
    "m_oneof_case_offsets L oneof = Some (oneof_discriminator d oneof (oneof_data d oneof L'))"
    by (simp_all add: oneof_placed_def)
  then show ?thesis
    by (simp add: oneof_region_def fs place_oneof_size)
qed

lemma data_before_end:
  "Size_le (oneof_data d oneof L') (m_size (place_oneof d oneof L'))"
proof -
  have "Size_le (oneof_discriminator d oneof (oneof_data d oneof L')) (m_size (place_oneof d oneof L'))"
    by (simp add: place_oneof_size Size_le_def Add_def mkSize_def)
  from Size_le_trans [OF data_le_discriminator this] show ?thesis .
qed





lemma oneof_placed_unique:
  assumes "oneof_placed d oneof La L" "oneof_placed d oneof Lb L"
  shows "oneof_data d oneof La = oneof_data d oneof Lb \<or> oneof_field d oneof = []"
  using assms by (cases "oneof_field d oneof") (auto simp: oneof_placed_def)






section \<open>Oneofs\<close>

lemma Max_insert_max:
  assumes "finite S"
  shows "Max (insert (max a b) S) = Max (insert (a::int) (insert b S))"
proof (cases "S = {}")
  case True
  then show ?thesis by (simp add: max.commute)
next
  case False
  with assms show ?thesis by (simp add: max.assoc)
qed

lemma oneof_maxsize_Max:
  "size32 (sa_size (oneof_maxsize fs acc)) =
     Max (insert (size32 (sa_size acc)) ((\<lambda>f. size32 (sa_size (SizeOf f))) ` set fs))"
  "size64 (sa_size (oneof_maxsize fs acc)) =
     Max (insert (size64 (sa_size acc)) ((\<lambda>f. size64 (sa_size (SizeOf f))) ` set fs))"
  "size32 (sa_align (oneof_maxsize fs acc)) =
     Max (insert (size32 (sa_align acc)) ((\<lambda>f. size32 (sa_align (SizeOf f))) ` set fs))"
  "size64 (sa_align (oneof_maxsize fs acc)) =
     Max (insert (size64 (sa_align acc)) ((\<lambda>f. size64 (sa_align (SizeOf f))) ` set fs))"
  by (induction fs arbitrary: acc;
      simp add: SA_MaxFrom_def MaxFrom_def mkSize_def Max_insert_max)+












section \<open>Determinism\<close>

lemma sort_key_perm:
  assumes "mset xs = mset ys" "inj_on k (set xs)"
  shows "sort_key k xs = sort_key k ys"
  by (rule sort_key_inj_key_eq) (simp_all add: assms)

lemma rank_key_number:
  assumes "containing_oneof f = None" "0 \<le> number f" "number f < 2 ^ 29"
  shows "take_bit 29 (rank_key f) = number f"
proof -
  have "take_bit 29 (number f) = number f"
    using assms(2,3) by (simp add: take_bit_int_eq_self)
  then show ?thesis
    using assms(1) by (simp add: rank_key_def FieldLayoutRank_def take_bit_push_bit)
qed

lemma rank_key_inj:
  assumes "inj_on number (set (field d))"
    and "\<forall>f\<in>set (field d). 1 \<le> number f \<and> number f < 2 ^ 29"
  shows "inj_on rank_key (set (non_oneof_fields d))"
proof (rule inj_onI)
  fix f g assume f: "f \<in> set (non_oneof_fields d)" and g: "g \<in> set (non_oneof_fields d)"
    and eq: "rank_key f = rank_key g"
  have fd: "f \<in> set (field d)" "containing_oneof f = None"
    and gd: "g \<in> set (field d)" "containing_oneof g = None"
    using f g by (simp_all add: non_oneof_fields_def)
  have "0 \<le> number f \<and> number f < 2 ^ 29" "0 \<le> number g \<and> number g < 2 ^ 29"
    using assms(2) fd(1) gd(1) by force+
  then have "take_bit 29 (rank_key f) = number f" "take_bit 29 (rank_key g) = number g"
    using fd(2) gd(2) by (blast intro: rank_key_number)+
  with eq have "number f = number g" by simp
  with assms(1) fd(1) gd(1) show "f = g"
    by (auto dest: inj_onD)
qed

lemma hot_key_inj:
  assumes "inj_on number (set (field d))"
  shows "inj_on (\<lambda>f. (\<not> is_required f, number f)) (set (field d))"
  using assms by (auto simp: inj_on_def)

lemma find_number_perm:
  assumes "inj_on number (set xs)" "set ys = set xs"
  shows "find (\<lambda>f. number f = n) ys = find (\<lambda>f. number f = n) xs"
proof (cases "find (\<lambda>f. number f = n) xs")
  case None
  then have "find (\<lambda>f. number f = n) ys = None"
    using assms(2) by (simp add: find_None_iff)
  with None show ?thesis by simp
next
  case (Some f)
  then have f: "f \<in> set xs" "number f = n"
    by (auto simp: find_Some_iff)
  then have "\<exists>g. g \<in> set ys \<and> number g = n" using assms(2) by auto
  then obtain g where g: "find (\<lambda>f. number f = n) ys = Some g"
    by (cases "find (\<lambda>f. number f = n) ys") (auto simp: find_None_iff)
  then have "g \<in> set xs" "number g = n"
    using assms(2) by (auto simp: find_Some_iff)
  with f assms(1) have "g = f" by (auto dest: inj_onD)
  with g Some show ?thesis by simp
qed

lemma place_hasbits_cong:
  "map_entry d' = map_entry d \<Longrightarrow> place_hasbits d' fs L = place_hasbits d fs L"
  by (induction fs arbitrary: L) (simp_all add: HasHasbit_def Let_def)

lemma place_hasbits_bytes_rel:
  assumes "B = A\<lparr>m_hasbit_bytes := b\<rparr>"
  shows "place_hasbits d fs B =
     (case place_hasbits d fs A of Inl e \<Rightarrow> Inl e | Inr L' \<Rightarrow> Inr (L'\<lparr>m_hasbit_bytes := b\<rparr>))"
  using assms
proof (induction fs arbitrary: A B)
  case Nil
  then show ?case by simp
next
  case (Cons f fs)
  have cnt: "m_hasbit_count B = m_hasbit_count A" "m_hasbit_indexes B = m_hasbit_indexes A"
    "m_required_count B = m_required_count A"
    using Cons.prems by simp_all
  let ?c = "m_hasbit_count A + 1"
  let ?A1 = "A\<lparr>m_hasbit_count := ?c, m_hasbit_indexes := (m_hasbit_indexes A)(f \<mapsto> ?c)\<rparr>"
  let ?B1 = "B\<lparr>m_hasbit_count := ?c, m_hasbit_indexes := (m_hasbit_indexes A)(f \<mapsto> ?c)\<rparr>"
  let ?A2 = "?A1\<lparr>m_required_count := m_required_count A + 1\<rparr>"
  let ?B2 = "?B1\<lparr>m_required_count := m_required_count A + 1\<rparr>"
  have rel: "?B1 = ?A1\<lparr>m_hasbit_bytes := b\<rparr>" "?B2 = ?A2\<lparr>m_hasbit_bytes := b\<rparr>"
    using Cons.prems by simp_all
  have stepA: "place_hasbits d (f # fs) A =
      (if HasHasbit d f then
         if is_required f then
           if ?c > 63 then Inl (TooManyRequired (full_name f)) else place_hasbits d fs ?A2
         else place_hasbits d fs ?A1
       else place_hasbits d fs A)"
    by (simp add: Let_def)
  have stepB: "place_hasbits d (f # fs) B =
      (if HasHasbit d f then
         if is_required f then
           if ?c > 63 then Inl (TooManyRequired (full_name f)) else place_hasbits d fs ?B2
         else place_hasbits d fs ?B1
       else place_hasbits d fs B)"
    by (simp add: Let_def cnt)
  show ?case
    unfolding stepA stepB
    using Cons.IH [OF rel(1)] Cons.IH [OF rel(2)] Cons.IH [OF Cons.prems]
    by simp
qed

lemma place_hasbits_bytes:
  "place_hasbits d fs (L\<lparr>m_hasbit_bytes := b\<rparr>) =
     (case place_hasbits d fs L of Inl e \<Rightarrow> Inl e | Inr L' \<Rightarrow> Inr (L'\<lparr>m_hasbit_bytes := b\<rparr>))"
  by (rule place_hasbits_bytes_rel) simp

lemma hasbits_placed_bytes: "hasbits_placed (L\<lparr>m_hasbit_bytes := b\<rparr>) = hasbits_placed L"
  by (simp add: hasbits_placed_def Place_def Let_def)

lemma after_hasbits_bytes: "after_hasbits d (L\<lparr>m_hasbit_bytes := b\<rparr>) = after_hasbits d L"
  by (simp add: after_hasbits_def fields_placed_def hasbits_placed_bytes)

lemma start_fresh:
  "start (fresh u') = (start (fresh u))\<lparr>m_hasbit_bytes := ind_hasbit_bytes u'\<rparr>"
  by (simp add: start_def fresh_def)

lemma oneof_maxsize_set:
  assumes "set fs = set gs"
  shows "oneof_maxsize fs acc = oneof_maxsize gs acc"
proof -
  have "sa_size (oneof_maxsize fs acc) = sa_size (oneof_maxsize gs acc)"
    "sa_align (oneof_maxsize fs acc) = sa_align (oneof_maxsize gs acc)"
    by (rule Size.equality; simp add: oneof_maxsize_Max assms)+
  then show ?thesis by (rule SizeAndAlign.equality) simp
qed

lemma place_oneof_cong:
  assumes "set (oneof_field d' oneof) = set (oneof_field d oneof)"
  shows "place_oneof d' oneof L = place_oneof d oneof L"
proof -
  have "oneof_shape d' oneof = oneof_shape d oneof"
    unfolding oneof_shape_def by (rule oneof_maxsize_set [OF assms])
  then show ?thesis
    by (simp add: place_oneof_def oneof_data_def oneof_discriminator_def set_data_offsets_eq assms)
qed

lemma place_oneofs_cong:
  assumes "\<And>oneof. set (oneof_field d' oneof) = set (oneof_field d oneof)"
  shows "place_oneofs d' os L = place_oneofs d os L"
  by (induction os arbitrary: L) (simp_all only: place_oneofs.simps(1) place_oneofs_Cons place_oneof_cong [OF assms])

lemma ComputeLayout_after_hasbits:
  assumes "\<not> map_entry d"
  shows "ComputeLayout d L =
    (case place_hasbits d (FieldHotnessOrder d) (start L) of
       Inl e \<Rightarrow> Inl e
     | Inr M \<Rightarrow> Inr (after_hasbits d M))"
  by (simp add: ComputeLayout_ordinary [OF assms] after_hasbits_def fields_placed_def
      split: sum.splits)

lemma reordered_schema:
  assumes "inj_on number (set (field d))"
    and "\<forall>f\<in>set (field d). 1 \<le> number f \<and> number f < 2 ^ 29"
    and "inj_on oneof_full_name (set (oneof_decl d))"
    and "mset (field d') = mset (field d)"
    and "mset (oneof_decl d') = mset (oneof_decl d)"
  shows "FieldHotnessOrder d' = FieldHotnessOrder d"
    and "field_order d' = field_order d"
    and "oneof_order d' = oneof_order d"
    and "set (oneof_field d' oneof) = set (oneof_field d oneof)"
    and "FindFieldByNumber d' n = FindFieldByNumber d n"
proof -
  have sets: "set (field d') = set (field d)" "set (oneof_decl d') = set (oneof_decl d)"
    using assms(4,5) by (auto dest: mset_eq_setD)
  show "FieldHotnessOrder d' = FieldHotnessOrder d"
    unfolding FieldHotnessOrder_def
    using hot_key_inj [OF assms(1)] by (intro sort_key_perm assms(4)) (simp add: sets)
  have "mset (non_oneof_fields d') = mset (non_oneof_fields d)"
    by (simp add: non_oneof_fields_def assms(4))
  moreover have "set (non_oneof_fields d') = set (non_oneof_fields d)"
    by (simp add: non_oneof_fields_def sets)
  ultimately show "field_order d' = field_order d"
    unfolding field_order_def
    using rank_key_inj [OF assms(1,2)] by (intro sort_key_perm) simp_all
  show "oneof_order d' = oneof_order d"
    unfolding oneof_order_def
    using assms(3) by (intro sort_key_perm assms(5)) (simp add: sets)
  show "set (oneof_field d' oneof) = set (oneof_field d oneof)"
    by (simp add: oneof_field_def sets)
  show "FindFieldByNumber d' n = FindFieldByNumber d n"
    unfolding FindFieldByNumber_def
    by (rule find_number_perm [OF assms(1) sets(1)])
qed

lemma after_hasbits_reordered:
  assumes "inj_on number (set (field d))"
    and "\<forall>f\<in>set (field d). 1 \<le> number f \<and> number f < 2 ^ 29"
    and "inj_on oneof_full_name (set (oneof_decl d))"
    and "mset (field d') = mset (field d)"
    and "mset (oneof_decl d') = mset (oneof_decl d)"
  shows "after_hasbits d' M = after_hasbits d M"
  unfolding after_hasbits_def fields_placed_def reordered_schema(2,3) [OF assms]
  by (simp add: place_oneofs_cong [of d' d, OF reordered_schema(4) [OF assms]])

lemma ordinary_reordered:
  assumes "inj_on number (set (field d))"
    and "\<forall>f\<in>set (field d). 1 \<le> number f \<and> number f < 2 ^ 29"
    and "inj_on oneof_full_name (set (oneof_decl d))"
    and "mset (field d') = mset (field d)"
    and "mset (oneof_decl d') = mset (oneof_decl d)"
    and "map_entry d' = map_entry d" "\<not> map_entry d"
  shows "new_MessageLayout u' d' = new_MessageLayout u d"
proof -
  have ne: "\<not> map_entry d'" using assms(6,7) by simp
  show ?thesis
    unfolding new_MessageLayout_def ComputeLayout_after_hasbits [OF ne]
      ComputeLayout_after_hasbits [OF assms(7)] reordered_schema(1) [OF assms(1-5)]
      place_hasbits_cong [OF assms(6)] start_fresh [of u' u] place_hasbits_bytes
    by (simp add: after_hasbits_reordered [OF assms(1-5)] after_hasbits_bytes split: sum.splits)
qed

lemma map_entry_reordered:
  assumes "inj_on number (set (field d))"
    and "\<forall>f\<in>set (field d). 1 \<le> number f \<and> number f < 2 ^ 29"
    and "inj_on oneof_full_name (set (oneof_decl d))"
    and "mset (field d') = mset (field d)"
    and "mset (oneof_decl d') = mset (oneof_decl d)"
    and "map_entry d' = map_entry d" "map_entry d"
  shows "\<exists>L L'. new_MessageLayout u d = Inr L \<and> new_MessageLayout u' d' = Inr L'
           \<and> m_field_offsets L' = m_field_offsets L
           \<and> m_oneof_case_offsets L' = m_oneof_case_offsets L
           \<and> m_hasbit_indexes L' = m_hasbit_indexes L
           \<and> m_size L' = m_size L"
proof -
  have me: "map_entry d'" using assms(6,7) by simp
  show ?thesis
    unfolding new_MessageLayout_def ComputeLayout_map_entry [OF me] ComputeLayout_map_entry [OF assms(7)]
    by (simp add: finish_simps place_map_entry_field_frame place_map_entry_field_offsets
        reordered_schema(5) [OF assms(1-5)] fresh_def split: option.splits)
qed

text \<open>
  C8. Take a message \<open>d\<close> with distinct field numbers, all in protobuf's range
  \<open>1 .. 2^29 - 1\<close>, and distinct oneof names, and a message \<open>d'\<close> whose field list and oneof
  list are permutations of those of \<open>d\<close> (\<open>d' = d\<close> included). Build the two layouts from
  any two states \<open>u\<close>, \<open>u'\<close> of the uninitialised members. Then both runs end in the same
  error, or both succeed with the same field offsets, oneof case offsets, presence-bit
  indices and total size.
\<close>

theorem layout_independent_of_declaration_order:
  assumes "distinct (map number (field d))"
    and "\<forall>f\<in>set (field d). 1 \<le> number f \<and> number f < 2 ^ 29"
    and "distinct (map oneof_full_name (oneof_decl d))"
    and "mset (field d') = mset (field d)"
    and "mset (oneof_decl d') = mset (oneof_decl d)"
    and "map_entry d' = map_entry d"
  shows "(\<forall>e. new_MessageLayout u d = Inl e \<longrightarrow> new_MessageLayout u' d' = Inl e)
       \<and> (\<forall>L. new_MessageLayout u d = Inr L \<longrightarrow>
            (\<exists>L'. new_MessageLayout u' d' = Inr L'
                 \<and> m_field_offsets L' = m_field_offsets L
                 \<and> m_oneof_case_offsets L' = m_oneof_case_offsets L
                 \<and> m_hasbit_indexes L' = m_hasbit_indexes L
                 \<and> message_size L' = message_size L))"
proof -
  have inj: "inj_on number (set (field d))" "inj_on oneof_full_name (set (oneof_decl d))"
    using assms(1,3) by (simp_all add: distinct_map)
  show ?thesis
  proof (cases "map_entry d")
    case True
    from map_entry_reordered [OF inj(1) assms(2) inj(2) assms(4-6) True, of u u'] show ?thesis
      by (auto simp: message_size_def)
  next
    case False
    from ordinary_reordered [OF inj(1) assms(2) inj(2) assms(4-6) False, of u' u] show ?thesis
      by simp
  qed
qed

lemma mixed_message_reordered_perm:
  "mset (field mixed_message_reordered) = mset (field mixed_message)"
  "mset (oneof_decl mixed_message_reordered) = mset (oneof_decl mixed_message)"
  "map_entry mixed_message_reordered = map_entry mixed_message"
  "field mixed_message_reordered \<noteq> field mixed_message"
  by (simp_all add: mixed_message_reordered_def mixed_message_def add_mset_commute
      member_field_def simple_field_def)

lemma mixed_message_numbers:
  "distinct (map number (field mixed_message))"
  "\<forall>f\<in>set (field mixed_message). 1 \<le> number f \<and> number f < 2 ^ 29"
  "distinct (map oneof_full_name (oneof_decl mixed_message))"
  using mixed_message_valid(1) by (simp_all add: valid_descriptor_def list_all_iff)

theorem layout_independent_of_declaration_order_witness:
  "distinct (map number (field mixed_message))
   \<and> list_all (\<lambda>f. 1 \<le> number f \<and> number f < 2 ^ 29) (field mixed_message)
   \<and> distinct (map oneof_full_name (oneof_decl mixed_message))
   \<and> mset (field mixed_message_reordered) = mset (field mixed_message)
   \<and> mset (oneof_decl mixed_message_reordered) = mset (oneof_decl mixed_message)
   \<and> map_entry mixed_message_reordered = map_entry mixed_message
   \<and> field mixed_message_reordered \<noteq> field mixed_message
   \<and> (\<exists>L L'. new_MessageLayout some_indeterminate mixed_message = Inr L
          \<and> new_MessageLayout other_indeterminate mixed_message_reordered = Inr L'
          \<and> m_field_offsets L' = m_field_offsets L
          \<and> m_oneof_case_offsets L' = m_oneof_case_offsets L
          \<and> m_hasbit_indexes L' = m_hasbit_indexes L
          \<and> message_size L' = message_size L)"
proof -
  from mixed_message_succeeds obtain L where
    L: "new_MessageLayout some_indeterminate mixed_message = Inr L" ..
  from layout_independent_of_declaration_order
    [OF mixed_message_numbers mixed_message_reordered_perm(1,2,3),
      of some_indeterminate other_indeterminate] L
  have "\<exists>L'. new_MessageLayout other_indeterminate mixed_message_reordered = Inr L'
          \<and> m_field_offsets L' = m_field_offsets L
          \<and> m_oneof_case_offsets L' = m_oneof_case_offsets L
          \<and> m_hasbit_indexes L' = m_hasbit_indexes L
          \<and> message_size L' = message_size L"
    by blast
  with L mixed_message_numbers mixed_message_reordered_perm show ?thesis
    unfolding list_all_iff by blast
qed

section \<open>The total size\<close>

text \<open>What holds of the final \<open>AlignUp\<close>: the total size covers every placed region
  whatever the running maximum is; it is a multiple of the running maximum when that is a
  power of two; and the final \<open>AlignUp\<close> is the only place where an assertion can fail. With
  at most 64 presence bits the running maximum is 8 or 16 and no assertion fails.\<close>

lemma MaxFrom_ge: "Size_le a (MaxFrom a s)"
  by (simp add: MaxFrom_def Size_le_def mkSize_def)

lemma place_fields_maxalign_mono: "Size_le (m_maxalign L) (m_maxalign (place_fields fs L))"
proof (induction fs arbitrary: L)
  case Nil
  show ?case by simp
next
  case (Cons f fs)
  let ?L1 = "(snd (Place (SizeOf f) L))\<lparr>m_field_offsets :=
      (m_field_offsets (snd (Place (SizeOf f) L)))(f \<mapsto> AlignUp (m_size L) (sa_align (SizeOf f)))\<rparr>"
  have step: "place_fields (f # fs) L = place_fields fs ?L1"
    by (simp add: Place_def Let_def)
  have "Size_le (m_maxalign L) (m_maxalign ?L1)"
    by (simp add: snd_Place MaxFrom_ge)
  from Size_le_trans [OF this Cons.IH [of ?L1]] show ?case unfolding step .
qed

lemma place_oneof_maxalign:
  "m_maxalign (place_oneof d oneof L) =
     MaxFrom (MaxFrom (m_maxalign L) (sa_size (oneof_shape d oneof))) (mkSize 4 4)"
  by (simp add: place_oneof_def set_data_offsets_eq snd_Place mkSA_def)

lemma place_oneofs_maxalign_mono: "Size_le (m_maxalign L) (m_maxalign (place_oneofs d os L))"
proof (induction os arbitrary: L)
  case Nil
  show ?case by simp
next
  case (Cons x os)
  have "Size_le (m_maxalign L) (m_maxalign (place_oneof d x L))"
    unfolding place_oneof_maxalign by (rule Size_le_trans [OF MaxFrom_ge MaxFrom_ge])
  from Size_le_trans [OF this Cons.IH [of "place_oneof d x L"]] show ?case
    unfolding place_oneofs_Cons .
qed

lemma place_oneof_asserts:
  assumes "oneof_field d oneof \<noteq> []"
  shows "asserts_ok (place_oneof d oneof L) = asserts_ok L"
  using AlignUp_asserts_good [OF oneof_shape_good_align [OF assms]]
  by (simp add: place_oneof_def set_data_offsets_eq snd_Place mkSA_def AlignUp_asserts_def mkSize_def)

lemma place_oneofs_asserts:
  "\<forall>x\<in>set os. oneof_field d x \<noteq> [] \<Longrightarrow> asserts_ok (place_oneofs d os L) = asserts_ok L"
  by (induction os arbitrary: L) (simp_all only: place_oneofs.simps(1) place_oneofs_Cons, simp_all add: place_oneof_asserts)

lemma after_hasbits_finish: "after_hasbits d M = finish (before_finish d M)"
  by (simp add: after_hasbits_def before_finish_def)

lemma before_finish_props:
  assumes "valid_descriptor d" "m_size M = mkSize 0 0" "m_maxalign M = mkSize 8 8"
    "0 \<le> m_hasbit_count M" "asserts_ok M"
  shows "Size_le (mkSize 0 0) (m_size (before_finish d M))"
    and "Size_le (mkSize 8 8) (m_maxalign (before_finish d M))"
    and "asserts_ok (before_finish d M)"
    and "Size_le (m_size (fields_placed d M)) (m_size (before_finish d M))"
proof -
  have ne: "\<forall>x\<in>set (oneof_order d). oneof_field d x \<noteq> []"
    using valid_descriptorD(3) [OF assms(1)] by (simp add: oneof_order_props)
  have hb: "0 \<le> DivRoundUp (m_hasbit_count M) 8"
    using assms(4) by (simp add: DivRoundUp_def)
  have "Size_le (mkSize 0 0) (m_size (hasbits_placed M))"
    using hb by (simp add: hasbits_placed_size [OF assms(2)] Size_le_def mkSize_def)
  then have "Size_le (mkSize 0 0) (m_size (fields_placed d M))"
    unfolding fields_placed_def by (rule Size_le_trans [OF _ place_fields_size_mono])
  moreover show 4: "Size_le (m_size (fields_placed d M)) (m_size (before_finish d M))"
    unfolding before_finish_def by (rule place_oneofs_size_mono [OF ne])
  ultimately show "Size_le (mkSize 0 0) (m_size (before_finish d M))"
    by (rule Size_le_trans)
  have "Size_le (mkSize 8 8) (m_maxalign (hasbits_placed M))"
    by (simp add: hasbits_placed_simps assms(3) MaxFrom_ge)
  then have "Size_le (mkSize 8 8) (m_maxalign (fields_placed d M))"
    unfolding fields_placed_def by (rule Size_le_trans [OF _ place_fields_maxalign_mono])
  then show "Size_le (mkSize 8 8) (m_maxalign (before_finish d M))"
    unfolding before_finish_def by (rule Size_le_trans [OF _ place_oneofs_maxalign_mono])
  have "asserts_ok (hasbits_placed M)"
    using assms(4,5)
    by (simp add: hasbits_placed_def snd_Place DivRoundUp_asserts_def AlignUp_asserts_def mkSize_def)
  then show "asserts_ok (before_finish d M)"
    by (simp add: before_finish_def fields_placed_def place_oneofs_asserts [OF ne] place_fields_asserts)
qed

lemma finish_size_ge:
  assumes "Size_le (mkSize 0 0) (m_size P)" "Size_le (mkSize 8 8) (m_maxalign P)"
  shows "Size_le (m_size P) (m_size (finish P))"
  using assms by (simp add: finish_simps AlignUp_def Size_le_def mkSize_def Align_ge)

lemma fresh_run:
  assumes "\<not> map_entry d" "new_MessageLayout u d = Inr L"
  obtains M where "L = after_hasbits d M" "m_size M = mkSize 0 0" "m_maxalign M = mkSize 8 8"
    "0 \<le> m_hasbit_count M" "asserts_ok M"
proof -
  from assms(2) have run: "ComputeLayout d (fresh u) = Inr L"
    by (simp add: new_MessageLayout_def)
  from ordinary_run [OF assms(1) run] obtain M where
    M: "place_hasbits d (FieldHotnessOrder d) (start (fresh u)) = Inr M" "L = after_hasbits d M"
    by metis
  show thesis
    using that [OF M(2)] place_hasbits_frame [OF M(1)] place_hasbits_count(1) [OF M(1)]
    by (simp add: start_def fresh_def)
qed

lemma total_size_covers:
  assumes "\<not> map_entry d" "valid_descriptor d" "new_MessageLayout u d = Inr L"
  shows "Size_le (snd (hasbit_region L)) (message_size L)"
    and "\<forall>f\<in>set (non_oneof_fields d). \<exists>r. field_region L f = Some r \<and> Size_le (snd r) (message_size L)"
    and "\<forall>oneof\<in>set (oneof_decl d). \<exists>r. oneof_region d L oneof = Some r \<and> Size_le (snd r) (message_size L)"
proof -
  from fresh_run [OF assms(1,3)] obtain M where
    L: "L = after_hasbits d M" and M: "m_size M = mkSize 0 0" "m_maxalign M = mkSize 8 8"
      "0 \<le> m_hasbit_count M" "asserts_ok M" by metis
  note P = before_finish_props [OF assms(2) M]
  have fin: "Size_le (m_size (before_finish d M)) (message_size L)"
    unfolding L after_hasbits_finish message_size_def by (rule finish_size_ge [OF P(1,2)])
  have fp: "Size_le (m_size (fields_placed d M)) (message_size L)"
    by (rule Size_le_trans [OF P(4) fin])
  show "Size_le (snd (hasbit_region L)) (message_size L)"
    using Size_le_trans [OF fields_placed_size_ge [OF M(1), of d] fp]
    by (simp add: hasbit_region_def L)
  show "\<forall>f\<in>set (non_oneof_fields d). \<exists>r. field_region L f = Some r \<and> Size_le (snd r) (message_size L)"
  proof
    fix f assume f: "f \<in> set (non_oneof_fields d)"
    from non_oneof_field_placed [OF valid_descriptorD(1) [OF assms(2)] M(1) f] obtain off where
      off: "m_field_offsets L f = Some off"
        "Size_le (Add off (sa_size (SizeOf f))) (m_size (fields_placed d M))"
      unfolding L by blast
    show "\<exists>r. field_region L f = Some r \<and> Size_le (snd r) (message_size L)"
      using Size_le_trans [OF off(2) fp] by (simp add: field_region_def off(1))
  qed
  show "\<forall>oneof\<in>set (oneof_decl d). \<exists>r. oneof_region d L oneof = Some r \<and> Size_le (snd r) (message_size L)"
  proof
    fix oneof assume o: "oneof \<in> set (oneof_decl d)"
    have ne: "oneof_field d oneof \<noteq> []"
      using valid_descriptorD(3) [OF assms(2)] o by simp
    have "distinct (oneof_order d)" "oneof \<in> set (oneof_order d)"
      "\<forall>x\<in>set (oneof_order d). oneof_field d x \<noteq> []"
      using valid_descriptorD(2,3) [OF assms(2)] o by (simp_all add: oneof_order_props)
    from place_oneofs_offset [OF this, of "fields_placed d M"] obtain L' where
      L': "oneof_placed d oneof L' (before_finish d M)"
        "Size_le (m_size (place_oneof d oneof L')) (m_size (before_finish d M))"
      unfolding before_finish_def by blast
    have "oneof_placed d oneof L' L"
      using L'(1) by (simp add: oneof_placed_def L after_hasbits_simps before_finish_def)
    from oneof_region_placed [OF this ne] Size_le_trans [OF L'(2) fin]
    show "\<exists>r. oneof_region d L oneof = Some r \<and> Size_le (snd r) (message_size L)"
      by simp
  qed
qed

lemma total_size_multiple:
  assumes "ComputeLayout d L0 = Inr L" "m_maxalign L = mkSize (2 ^ j) (2 ^ k)"
  shows "size32 (m_maxalign L) dvd size32 (message_size L)"
    and "size64 (m_maxalign L) dvd size64 (message_size L)"
proof -
  from assms(1) obtain P where "L = finish P"
    by (auto simp: ComputeLayout_def Let_def finish_def split: if_splits sum.splits)
  then have "message_size L = AlignUp (m_size P) (m_maxalign L)"
    by (simp add: message_size_def finish_simps)
  then show "size32 (m_maxalign L) dvd size32 (message_size L)"
    "size64 (m_maxalign L) dvd size64 (message_size L)"
    by (simp_all add: assms(2) AlignUp_def mkSize_def Align_pow2_dvd)
qed

text \<open>In an ordinary message only the final \<open>AlignUp\<close> can fail its assertion.\<close>

lemma only_final_assertion:
  assumes "\<not> map_entry d" "valid_descriptor d" "new_MessageLayout u d = Inr L"
  shows "asserts_ok L \<longleftrightarrow> AlignUp_asserts (m_maxalign L)"
proof -
  from fresh_run [OF assms(1,3)] obtain M where
    L: "L = after_hasbits d M" and M: "m_size M = mkSize 0 0" "m_maxalign M = mkSize 8 8"
      "0 \<le> m_hasbit_count M" "asserts_ok M" by metis
  show ?thesis
    using before_finish_props(3) [OF assms(2) M]
    by (simp add: L after_hasbits_finish finish_def)
qed

subsection \<open>Up to 64 presence bits\<close>

lemma MaxFrom_8_or_16:
  "is_8_or_16 a \<Longrightarrow> at_most_8_or_16 s \<Longrightarrow> is_8_or_16 (MaxFrom a s)"
  by (auto simp: is_8_or_16_def at_most_8_or_16_def MaxFrom_def mkSize_def max_def)

lemma SizeOf_at_most: "at_most_8_or_16 (sa_size (SizeOf f))"
  by (cases "cpp_type f") (simp_all add: SizeOf_def at_most_8_or_16_def mkSA_def mkSize_def)

lemma oneof_maxsize_at_most:
  "at_most_8_or_16 (sa_size acc) \<Longrightarrow> at_most_8_or_16 (sa_size (oneof_maxsize fs acc))"
proof (induction fs arbitrary: acc)
  case Nil
  then show ?case by simp
next
  case (Cons f fs)
  have "at_most_8_or_16 (sa_size (SA_MaxFrom acc (SizeOf f)))"
    using Cons.prems SizeOf_at_most [of f]
    by (auto simp: SA_MaxFrom_def MaxFrom_def mkSize_def at_most_8_or_16_def max_def)
  then show ?case by (simp add: Cons.IH)
qed

lemma oneof_shape_at_most: "at_most_8_or_16 (sa_size (oneof_shape d oneof))"
  unfolding oneof_shape_def
  by (rule oneof_maxsize_at_most) (simp add: at_most_8_or_16_def mkSA_def mkSize_def)

lemma place_fields_8_or_16:
  "is_8_or_16 (m_maxalign L) \<Longrightarrow> is_8_or_16 (m_maxalign (place_fields fs L))"
proof (induction fs arbitrary: L)
  case Nil
  then show ?case by simp
next
  case (Cons f fs)
  let ?L1 = "(snd (Place (SizeOf f) L))\<lparr>m_field_offsets :=
      (m_field_offsets (snd (Place (SizeOf f) L)))(f \<mapsto> AlignUp (m_size L) (sa_align (SizeOf f)))\<rparr>"
  have step: "place_fields (f # fs) L = place_fields fs ?L1"
    by (simp add: Place_def Let_def)
  have "is_8_or_16 (m_maxalign ?L1)"
    using MaxFrom_8_or_16 [OF Cons.prems SizeOf_at_most] by (simp add: snd_Place)
  then show ?case unfolding step by (rule Cons.IH)
qed

lemma place_oneofs_8_or_16:
  "is_8_or_16 (m_maxalign L) \<Longrightarrow> is_8_or_16 (m_maxalign (place_oneofs d os L))"
proof (induction os arbitrary: L)
  case Nil
  then show ?case by simp
next
  case (Cons x os)
  have "at_most_8_or_16 (mkSize 4 4)" by (simp add: at_most_8_or_16_def mkSize_def)
  from MaxFrom_8_or_16 [OF MaxFrom_8_or_16 [OF Cons.prems oneof_shape_at_most] this]
  have "is_8_or_16 (m_maxalign (place_oneof d x L))"
    by (simp add: place_oneof_maxalign)
  then show ?case unfolding place_oneofs_Cons by (rule Cons.IH)
qed

lemma is_8_or_16_asserts: "is_8_or_16 a \<Longrightarrow> AlignUp_asserts a"
  by (auto simp: is_8_or_16_def AlignUp_asserts_def IsPowerOfTwo_def)

lemma is_8_or_16_pow2: "is_8_or_16 a \<Longrightarrow> \<exists>j k. a = mkSize (2 ^ j) (2 ^ k)"
proof -
  assume "is_8_or_16 a"
  then have "(size32 a = 2 ^ 3 \<or> size32 a = 2 ^ 4) \<and> (size64 a = 2 ^ 3 \<or> size64 a = 2 ^ 4)"
    by (simp add: is_8_or_16_def)
  then obtain j k where "size32 a = 2 ^ j" "size64 a = 2 ^ k" by blast
  then have "a = mkSize (2 ^ j) (2 ^ k)" by (simp add: mkSize_def)
  then show ?thesis by blast
qed

text \<open>With at most 64 presence bits the running maximum ends at 8 or 16 under each
  width, no assertion fails, and the total size is a multiple of the running maximum.\<close>

lemma up_to_64_presence_bits:
  assumes "\<not> map_entry d" "valid_descriptor d" "new_MessageLayout u d = Inr L"
    "hasbit_count L \<le> 64"
  shows "is_8_or_16 (m_maxalign L)" and "asserts_ok L"
    and "size32 (m_maxalign L) dvd size32 (message_size L)"
    and "size64 (m_maxalign L) dvd size64 (message_size L)"
proof -
  from fresh_run [OF assms(1,3)] obtain M where
    L: "L = after_hasbits d M" and M: "m_size M = mkSize 0 0" "m_maxalign M = mkSize 8 8"
      "0 \<le> m_hasbit_count M" "asserts_ok M" by metis
  have "m_hasbit_count M \<le> 64"
    using assms(4) by (simp add: hasbit_count_def L after_hasbits_simps)
  then have "DivRoundUp (m_hasbit_count M) 8 \<le> 8"
    by (simp add: DivRoundUp_def)
  then have "is_8_or_16 (m_maxalign (hasbits_placed M))"
    by (simp add: hasbits_placed_simps M(2) MaxFrom_def mkSize_def is_8_or_16_def max_def)
  then have "is_8_or_16 (m_maxalign (before_finish d M))"
    unfolding before_finish_def fields_placed_def
    by (intro place_oneofs_8_or_16 place_fields_8_or_16)
  then show 1: "is_8_or_16 (m_maxalign L)"
    by (simp add: L after_hasbits_finish finish_simps)
  then show "asserts_ok L"
    using only_final_assertion [OF assms(1-3)] by (simp add: is_8_or_16_asserts)
  from is_8_or_16_pow2 [OF 1] obtain j k where jk: "m_maxalign L = mkSize (2 ^ j) (2 ^ k)"
    by blast
  from assms(3) have run: "ComputeLayout d (fresh u) = Inr L"
    by (simp add: new_MessageLayout_def)
  show "size32 (m_maxalign L) dvd size32 (message_size L)"
    "size64 (m_maxalign L) dvd size64 (message_size L)"
    by (rule total_size_multiple [OF run jk])+
qed

section \<open>The integers of the model and the machine words of the source\<close>

lemma word_of_int_Align:
  "(word_of_int (Align v a) :: 64 word) = Align_size_t (word_of_int v) (word_of_int a)"
  unfolding Align_def Align_size_t_def
  by transfer (simp add: take_bit_eq_mod)

lemma Align_le: "0 \<le> v \<Longrightarrow> 1 \<le> a \<Longrightarrow> Align v a \<le> v + a - 1"
  unfolding Align_def by (rule AND_upper1) simp

lemma Align_range:
  assumes "0 \<le> v" "0 \<le> a"
  shows "0 \<le> Align v a" and "Align v a \<le> v + a"
proof -
  consider "a = 0" | "1 \<le> a" using assms(2) by linarith
  then have "0 \<le> Align v a \<and> Align v a \<le> v + a"
  proof cases
    case 1
    then show ?thesis using assms(1) by simp
  next
    case 2
    from Align_ge [OF assms(1) 2] Align_le [OF assms(1) 2] assms(1) show ?thesis by simp
  qed
  then show "0 \<le> Align v a" and "Align v a \<le> v + a" by simp_all
qed

text \<open>On non-negative values whose sum stays below \<open>2^63\<close>, \<open>Align\<close> on \<^typ>\<open>int\<close> is
  \<^verbatim>\<open>Align\<close> on \<^verbatim>\<open>size_t\<close>, and the result converts back to \<^verbatim>\<open>int64_t\<close> unchanged.\<close>

lemma Align_size_t_eq:
  assumes "0 \<le> v" "0 \<le> a" "v + a < 2 ^ 63"
  shows "uint (Align_size_t (word_of_int v) (word_of_int a)) = Align v a"
    and "sint (Align_size_t (word_of_int v) (word_of_int a)) = Align v a"
proof -
  have r: "0 \<le> Align v a" "Align v a < 2 ^ 63"
    using Align_range [OF assms(1,2)] assms(3) by simp_all
  then have "Align v a < 2 ^ 64" by simp
  with r(1) show "uint (Align_size_t (word_of_int v) (word_of_int a)) = Align v a"
    unfolding word_of_int_Align [symmetric]
    by (simp add: uint_word_of_int take_bit_int_eq_self take_bit_eq_mod [symmetric])
  from r show "sint (Align_size_t (word_of_int v) (word_of_int a)) = Align v a"
    unfolding word_of_int_Align [symmetric] sint_sbintrunc'
    by (intro signed_take_bit_int_eq_self) simp_all
qed

lemma IsPowerOfTwo_size_t_eq:
  assumes "0 \<le> a" "a < 2 ^ 63"
  shows "IsPowerOfTwo_size_t (word_of_int a) \<longleftrightarrow> IsPowerOfTwo a"
proof -
  define x where "x = a AND (a - 1)"
  have w: "(word_of_int x :: 64 word) = word_of_int a AND (word_of_int a - 1)"
    unfolding x_def by transfer (simp add: take_bit_eq_mod)
  have "0 \<le> x" "x \<le> a"
    using assms(1) by (simp_all add: x_def AND_upper1)
  then have "take_bit 64 x = x"
    using assms(2) by (intro take_bit_int_eq_self) simp_all
  moreover have "(word_of_int x :: 64 word) = 0 \<longleftrightarrow> take_bit 64 x = 0"
    by (simp add: word_of_int_eq_0_iff take_bit_eq_0_iff)
  ultimately have "(word_of_int x :: 64 word) = 0 \<longleftrightarrow> x = 0" by simp
  then show ?thesis
    unfolding IsPowerOfTwo_size_t_def IsPowerOfTwo_def w [symmetric] x_def .
qed

subsection \<open>How large the sizes get\<close>

lemma at_most_16: "at_most_8_or_16 s \<Longrightarrow> Size_le s (mkSize 16 16)"
  by (auto simp: at_most_8_or_16_def Size_le_def mkSize_def)

lemma AlignUp_good_upper:
  assumes "good_align a" "Size_le (mkSize 0 0) s"
  shows "Size_le (AlignUp s a) (Add s (mkSize 7 7))"
proof -
  have "Align v x \<le> v + 7" if "0 \<le> v" "x = 1 \<or> x = 4 \<or> x = 8" for v x
    using Align_le [OF that(1), of x] that(2) by auto
  then show ?thesis
    using assms by (simp add: good_align_def Size_le_def AlignUp_def Add_def mkSize_def)
qed

lemma Place_upper:
  assumes "good_align (sa_align sa)" "Size_le (sa_size sa) (mkSize 16 16)"
    "Size_le (mkSize 0 0) (sa_size sa)" "Size_le (mkSize 0 0) (m_size L)"
  shows "Size_le (m_size (snd (Place sa L))) (Add (m_size L) (mkSize 23 23))"
    and "Size_le (mkSize 0 0) (m_size (snd (Place sa L)))"
  using AlignUp_good_upper [OF assms(1,4)] AlignUp_good_ge [OF assms(1), of "m_size L"] assms(2-4)
  by (simp_all add: snd_Place Size_le_def Add_def mkSize_def)

lemma place_fields_upper:
  assumes "Size_le (mkSize 0 0) (m_size L)"
  shows "Size_le (m_size (place_fields fs L))
           (Add (m_size L) (mkSize (23 * int (length fs)) (23 * int (length fs))))"
  using assms
proof (induction fs arbitrary: L)
  case Nil
  then show ?case by (simp add: Size_le_def Add_def mkSize_def)
next
  case (Cons f fs)
  let ?L1 = "(snd (Place (SizeOf f) L))\<lparr>m_field_offsets :=
      (m_field_offsets (snd (Place (SizeOf f) L)))(f \<mapsto> AlignUp (m_size L) (sa_align (SizeOf f)))\<rparr>"
  have step: "place_fields (f # fs) L = place_fields fs ?L1"
    by (simp add: Place_def Let_def)
  have pos: "Size_le (mkSize 0 0) (sa_size (SizeOf f))"
    using SizeOf_size_pos [of f] by (simp add: Size_le_def mkSize_def)
  note P = Place_upper [OF SizeOf_good_align at_most_16 [OF SizeOf_at_most] pos Cons.prems]
  have "Size_le (mkSize 0 0) (m_size ?L1)" using P(2) by simp
  from Cons.IH [OF this] P(1) show ?case
    unfolding step by (simp add: Size_le_def Add_def mkSize_def)
qed

lemma place_oneof_upper:
  assumes "oneof_field d oneof \<noteq> []" "Size_le (mkSize 0 0) (m_size L)"
  shows "Size_le (m_size (place_oneof d oneof L)) (Add (m_size L) (mkSize 30 30))"
proof -
  have 1: "Size_le (oneof_data d oneof L) (Add (m_size L) (mkSize 7 7))"
    unfolding oneof_data_def
    by (rule AlignUp_good_upper [OF oneof_shape_good_align [OF assms(1)] assms(2)])
  have 2: "Size_le (sa_size (oneof_shape d oneof)) (mkSize 16 16)"
    by (rule at_most_16 [OF oneof_shape_at_most])
  have al: "Align v 4 \<le> v + 3" if "0 \<le> v" for v
    using Align_le [OF that, of 4] by simp
  have 3: "Size_le (mkSize 0 0) (oneof_data d oneof L)"
    using Size_le_trans [OF assms(2) place_oneof_data_ge [OF assms(1)]] .
  note 4 = oneof_shape_size_nonneg [of d oneof]
  let ?x = "size32 (oneof_data d oneof L) + size32 (sa_size (oneof_shape d oneof))"
  let ?y = "size64 (oneof_data d oneof L) + size64 (sa_size (oneof_shape d oneof))"
  have "0 \<le> ?x" "0 \<le> ?y"
    using 3 4 by (simp_all add: Size_le_def mkSize_def)
  then have "Align ?x 4 \<le> ?x + 3" "Align ?y 4 \<le> ?y + 3"
    by (simp_all only: al)
  then show ?thesis
    using 1 2
    by (simp add: place_oneof_size oneof_discriminator_def AlignUp_def Add_def mkSize_def Size_le_def)
qed

lemma place_oneofs_upper:
  assumes "\<forall>x\<in>set os. oneof_field d x \<noteq> []" "Size_le (mkSize 0 0) (m_size L)"
  shows "Size_le (m_size (place_oneofs d os L))
           (Add (m_size L) (mkSize (30 * int (length os)) (30 * int (length os))))"
  using assms
proof (induction os arbitrary: L)
  case Nil
  then show ?case by (simp add: Size_le_def Add_def mkSize_def)
next
  case (Cons x os)
  have x: "oneof_field d x \<noteq> []" and os: "\<forall>y\<in>set os. oneof_field d y \<noteq> []"
    using Cons.prems(1) by simp_all
  have "Size_le (mkSize 0 0) (m_size (place_oneof d x L))"
    using Size_le_trans [OF Cons.prems(2) place_oneof_size_mono [OF x]] .
  from Cons.IH [OF os this] place_oneof_upper [OF x Cons.prems(2)] show ?case
    unfolding place_oneofs_Cons by (simp add: Size_le_def Add_def mkSize_def)
qed

text \<open>The total size of a validated ordinary message with \<open>n\<close> fields and \<open>k\<close> oneofs is at
  most \<open>25 n + 30 k + 16\<close>: with \<open>n, k < 2^31\<close> every size, and every size plus an alignment,
  is far below \<open>2^63\<close>, the range in which \<open>Align\<close> and \<open>Align_size_t\<close> agree.\<close>

lemma message_size_upper:
  assumes "\<not> map_entry d" "valid_descriptor d" "new_MessageLayout u d = Inr L"
  shows "Size_le (message_size L)
           (mkSize (25 * int (length (field d)) + 30 * int (length (oneof_decl d)) + 16)
                   (25 * int (length (field d)) + 30 * int (length (oneof_decl d)) + 16))"
    and "Size_le (m_maxalign L) (mkSize (16 + int (length (field d))) (16 + int (length (field d))))"
proof -
  from assms(3) have run: "ComputeLayout d (fresh u) = Inr L"
    by (simp add: new_MessageLayout_def)
  from ordinary_run [OF assms(1) run] obtain M where
    M1: "place_hasbits d (FieldHotnessOrder d) (start (fresh u)) = Inr M" and L: "L = after_hasbits d M"
    by metis
  have M: "m_size M = mkSize 0 0" "m_maxalign M = mkSize 8 8"
    using place_hasbits_frame [OF M1] by (simp_all add: start_def)
  have cnt: "m_hasbit_count M = int (length (tracked d))"
    using place_hasbits_count(1) [OF M1] by (simp add: start_def tracked_def)
  let ?n = "int (length (field d))" and ?k = "int (length (oneof_decl d))"
  have "length (tracked d) \<le> length (field d)"
    by (simp add: length_tracked)
  then have hb: "0 \<le> DivRoundUp (m_hasbit_count M) 8" "DivRoundUp (m_hasbit_count M) 8 \<le> ?n"
    unfolding cnt DivRoundUp_def by linarith+
  let ?H = "hasbits_placed M"
  have H: "m_size ?H = mkSize (DivRoundUp (m_hasbit_count M) 8) (DivRoundUp (m_hasbit_count M) 8)"
    by (rule hasbits_placed_size [OF M(1)])
  have H0: "Size_le (mkSize 0 0) (m_size ?H)"
    using hb by (simp add: H Size_le_def mkSize_def)
  have F0: "Size_le (mkSize 0 0) (m_size (fields_placed d M))"
    unfolding fields_placed_def by (rule Size_le_trans [OF H0 place_fields_size_mono])
  have "length (field_order d) \<le> length (field d)"
    by (simp add: field_order_props non_oneof_fields_def)
  then have F: "Size_le (m_size (fields_placed d M)) (mkSize (24 * ?n) (24 * ?n))"
    using place_fields_upper [OF H0, of "field_order d"] hb
    by (simp add: fields_placed_def H Size_le_def Add_def mkSize_def)
  have ne: "\<forall>x\<in>set (oneof_order d). oneof_field d x \<noteq> []"
    using valid_descriptorD(3) [OF assms(2)] by (simp add: oneof_order_props)
  have P: "Size_le (m_size (before_finish d M)) (mkSize (24 * ?n + 30 * ?k) (24 * ?n + 30 * ?k))"
    using place_oneofs_upper [OF ne F0] F
    by (simp add: before_finish_def oneof_order_props Size_le_def Add_def mkSize_def)
  have P0: "Size_le (mkSize 0 0) (m_size (before_finish d M))"
    unfolding before_finish_def by (rule Size_le_trans [OF F0 place_oneofs_size_mono [OF ne]])
  have mx: "Size_le (m_maxalign (before_finish d M)) (mkSize (16 + ?n) (16 + ?n))"
    and mx8: "Size_le (mkSize 8 8) (m_maxalign (before_finish d M))"
  proof -
    have bound: "Size_le (m_maxalign A) (mkSize (16 + ?n) (16 + ?n)) \<Longrightarrow> at_most_8_or_16 s \<Longrightarrow>
        Size_le (MaxFrom (m_maxalign A) s) (mkSize (16 + ?n) (16 + ?n))" for A s
      by (auto simp: Size_le_def MaxFrom_def mkSize_def at_most_8_or_16_def)
    have pf: "Size_le (m_maxalign A) (mkSize (16 + ?n) (16 + ?n)) \<Longrightarrow>
        Size_le (m_maxalign (place_fields fs A)) (mkSize (16 + ?n) (16 + ?n))" for A fs
    proof (induction fs arbitrary: A)
      case Nil
      then show ?case by simp
    next
      case (Cons f fs)
      let ?A1 = "(snd (Place (SizeOf f) A))\<lparr>m_field_offsets :=
        (m_field_offsets (snd (Place (SizeOf f) A)))(f \<mapsto> AlignUp (m_size A) (sa_align (SizeOf f)))\<rparr>"
      have step: "place_fields (f # fs) A = place_fields fs ?A1"
        by (simp add: Place_def Let_def)
      have "Size_le (m_maxalign ?A1) (mkSize (16 + ?n) (16 + ?n))"
        using bound [OF Cons.prems SizeOf_at_most] by (simp add: snd_Place)
      then show ?case unfolding step by (rule Cons.IH)
    qed
    have po: "Size_le (m_maxalign A) (mkSize (16 + ?n) (16 + ?n)) \<Longrightarrow>
        Size_le (m_maxalign (place_oneofs d os A)) (mkSize (16 + ?n) (16 + ?n))" for A os
    proof (induction os arbitrary: A)
      case Nil
      then show ?case by simp
    next
      case (Cons x os)
      have "Size_le (m_maxalign (place_oneof d x A)) (mkSize (16 + ?n) (16 + ?n))"
        using Cons.prems oneof_shape_at_most [of d x]
        by (auto simp: place_oneof_maxalign Size_le_def MaxFrom_def mkSize_def at_most_8_or_16_def)
      then show ?case unfolding place_oneofs_Cons by (rule Cons.IH)
    qed
    have "Size_le (m_maxalign ?H) (mkSize (16 + ?n) (16 + ?n))"
      using hb by (simp add: hasbits_placed_simps M(2) MaxFrom_def mkSize_def Size_le_def)
    then show "Size_le (m_maxalign (before_finish d M)) (mkSize (16 + ?n) (16 + ?n))"
      unfolding before_finish_def fields_placed_def by (intro po pf)
    have "Size_le (mkSize 8 8) (m_maxalign ?H)"
      by (simp add: hasbits_placed_simps M(2) MaxFrom_ge)
    from Size_le_trans [OF Size_le_trans [OF this place_fields_maxalign_mono] place_oneofs_maxalign_mono]
    show "Size_le (mkSize 8 8) (m_maxalign (before_finish d M))"
      unfolding before_finish_def fields_placed_def .
  qed
  show "Size_le (m_maxalign L) (mkSize (16 + ?n) (16 + ?n))"
    using mx by (simp add: L after_hasbits_finish finish_simps)
  let ?P = "before_finish d M"
  have al: "Align v a \<le> v + a - 1" if "0 \<le> v" "8 \<le> a" for v a
    using Align_le [OF that(1), of a] that(2) by simp
  have "0 \<le> size32 (m_size ?P)" "8 \<le> size32 (m_maxalign ?P)"
    "0 \<le> size64 (m_size ?P)" "8 \<le> size64 (m_maxalign ?P)"
    using P0 mx8 by (simp_all add: Size_le_def mkSize_def)
  then have "Align (size32 (m_size ?P)) (size32 (m_maxalign ?P))
        \<le> size32 (m_size ?P) + size32 (m_maxalign ?P) - 1"
    "Align (size64 (m_size ?P)) (size64 (m_maxalign ?P))
        \<le> size64 (m_size ?P) + size64 (m_maxalign ?P) - 1"
    by (simp_all only: al)
  moreover have "size32 (m_size ?P) \<le> 24 * ?n + 30 * ?k" "size64 (m_size ?P) \<le> 24 * ?n + 30 * ?k"
    "size32 (m_maxalign ?P) \<le> 16 + ?n" "size64 (m_maxalign ?P) \<le> 16 + ?n"
    using P mx by (simp_all add: Size_le_def mkSize_def)
  ultimately have "Align (size32 (m_size ?P)) (size32 (m_maxalign ?P)) \<le> 25 * ?n + 30 * ?k + 16"
    "Align (size64 (m_size ?P)) (size64 (m_maxalign ?P)) \<le> 25 * ?n + 30 * ?k + 16"
    by linarith+
  then show "Size_le (message_size L) (mkSize (25 * ?n + 30 * ?k + 16) (25 * ?n + 30 * ?k + 16))"
    by (simp add: L after_hasbits_finish message_size_def finish_simps AlignUp_def Size_le_def mkSize_def)
qed

end
